theory Spec2Isabelle
  imports Main
begin

section \<open>Text of the program: Python strings\<close>

text \<open>
  A Python \<open>str\<close> is a sequence of Unicode code points, so a string is a list of code
  points here, not a list of bytes. ASCII text is written with \<open>ascii\<close>; every other
  character is given by its code point.
\<close>

type_synonym cp = nat
type_synonym pystr = "cp list"

definition ascii :: "string \<Rightarrow> pystr" where
  "ascii s = map of_char s"

text \<open>
  The interpreter's Unicode tables are not part of the repository. The set of white
  space characters (\<open>str.isspace\<close>, also the \<open>\s\<close> of a \<open>str\<close> pattern and what
  \<open>str.strip\<close> removes) is small and written out. Which characters beyond ASCII are
  alphanumeric, and how text beyond ASCII is lower-cased, is a parameter of the model:
  every function that depends on it takes the tables as its first argument.
\<close>

record unicode_db =
  db_alnum :: "cp \<Rightarrow> bool"
  db_lower :: "pystr \<Rightarrow> pystr"

definition is_space :: "cp \<Rightarrow> bool" where
  "is_space c \<longleftrightarrow>
     (9 \<le> c \<and> c \<le> 13) \<or> (28 \<le> c \<and> c \<le> 32) \<or> c = 0x85 \<or> c = 0xA0
     \<or> c = 0x1680 \<or> (0x2000 \<le> c \<and> c \<le> 0x200A) \<or> c = 0x2028 \<or> c = 0x2029
     \<or> c = 0x202F \<or> c = 0x205F \<or> c = 0x3000"

definition is_word :: "unicode_db \<Rightarrow> cp \<Rightarrow> bool" where
  "is_word U c \<longleftrightarrow>
     (if c < 128
      then (48 \<le> c \<and> c \<le> 57) \<or> (65 \<le> c \<and> c \<le> 90) \<or> c = 95 \<or> (97 \<le> c \<and> c \<le> 122)
      else db_alnum U c)"

definition lower :: "unicode_db \<Rightarrow> pystr \<Rightarrow> pystr" where
  "lower U s =
     (if list_all (\<lambda>c. c < 128) s
      then map (\<lambda>c. if 65 \<le> c \<and> c \<le> 90 then c + 32 else c) s
      else db_lower U s)"

definition strip :: "pystr \<Rightarrow> pystr" where
  "strip s = rev (dropWhile is_space (rev (dropWhile is_space s)))"

text \<open>\<open>str.replace(old, new)\<close>: the occurrences of \<open>old\<close>, left to right, not overlapping.\<close>

fun replace_loop :: "pystr \<Rightarrow> pystr \<Rightarrow> nat \<Rightarrow> pystr \<Rightarrow> pystr" where
  "replace_loop old new skip [] = []"
| "replace_loop old new (Suc k) (x # xs) = replace_loop old new k xs"
| "replace_loop old new 0 (x # xs) =
     (if take (length old) (x # xs) = old
      then new @ replace_loop old new (length old - 1) xs
      else x # replace_loop old new 0 xs)"

definition replace :: "pystr \<Rightarrow> pystr \<Rightarrow> pystr \<Rightarrow> pystr" where
  "replace old new s =
     (if old = [] then new @ concat (map (\<lambda>c. c # new) s) else replace_loop old new 0 s)"

section \<open>The regular expressions of the program\<close>

text \<open>
  The patterns of the program use literals, \<open>.\<close>, character sets, \<open>\s\<close>, \<open>\w\<close>,
  \<open>\b\<close>, the greedy \<open>?\<close>, \<open>*\<close> and \<open>+\<close>, and groups. \<open>x+\<close> is \<open>x\<close> followed by
  \<open>x*\<close>; a group that does not capture is the expression itself.
\<close>

datatype citem = CChar cp | CRange cp cp | CSpace | CWord

datatype regex =
    Eps
  | Lit cp
  | Dot
  | In "citem list"
  | NotIn "citem list"
  | WordB
  | Seq regex regex
  | Opt regex
  | Star regex
  | Group nat regex

definition Plus :: "regex \<Rightarrow> regex" where
  "Plus r = Seq r (Star r)"

fun lits :: "pystr \<Rightarrow> regex" where
  "lits [] = Eps"
| "lits [c] = Lit c"
| "lits (c # cs) = Seq (Lit c) (lits cs)"

text \<open>
  A matcher state is the groups captured so far, the text before the current position
  (reversed: its head is the character just read) and the text from the position on.
  \<open>run\<close> is the backtracking matcher: it returns the states in which the expression can
  end, in the order in which the backtracking engine tries them, so that the match the
  engine reports is the first one. The flag is \<open>re.DOTALL\<close>.
\<close>

type_synonym mstate = "(nat \<rightharpoonup> pystr) \<times> pystr \<times> pystr"

fun in_item :: "unicode_db \<Rightarrow> citem \<Rightarrow> cp \<Rightarrow> bool" where
  "in_item U (CChar d) c = (c = d)"
| "in_item U (CRange lo hi) c = (lo \<le> c \<and> c \<le> hi)"
| "in_item U CSpace c = is_space c"
| "in_item U CWord c = is_word U c"

definition in_items :: "unicode_db \<Rightarrow> citem list \<Rightarrow> cp \<Rightarrow> bool" where
  "in_items U items c = list_ex (\<lambda>i. in_item U i c) items"

fun step_char :: "(cp \<Rightarrow> bool) \<Rightarrow> mstate \<Rightarrow> mstate list" where
  "step_char P (caps, b, []) = []"
| "step_char P (caps, b, x # xs) = (if P x then [(caps, x # b, xs)] else [])"

fun at_boundary :: "unicode_db \<Rightarrow> pystr \<Rightarrow> pystr \<Rightarrow> bool" where
  "at_boundary U [] [] = False"
| "at_boundary U [] (x # xs) = is_word U x"
| "at_boundary U (p # ps) [] = is_word U p"
| "at_boundary U (p # ps) (x # xs) = (is_word U p \<noteq> is_word U x)"

fun run :: "unicode_db \<Rightarrow> bool \<Rightarrow> regex \<Rightarrow> mstate \<Rightarrow> mstate list" where
  "run U fl Eps st = [st]"
| "run U fl (Lit c) st = step_char (\<lambda>x. x = c) st"
| "run U fl Dot st = step_char (\<lambda>x. fl \<or> x \<noteq> 10) st"
| "run U fl (In items) st = step_char (in_items U items) st"
| "run U fl (NotIn items) st = step_char (\<lambda>x. \<not> in_items U items x) st"
| "run U fl WordB (caps, b, a) = (if at_boundary U b a then [(caps, b, a)] else [])"
| "run U fl (Seq r1 r2) st = concat (map (run U fl r2) (run U fl r1 st))"
| "run U fl (Opt r) st = run U fl r st @ [st]"
| "run U fl (Star r) st =
     concat (map (\<lambda>st'. if length (snd (snd st')) < length (snd (snd st))
                         then run U fl (Star r) st' else [])
                 (run U fl r st)) @ [st]"
| "run U fl (Group n r) (caps, b, a) =
     map (\<lambda>(caps', b', a'). (caps'(n \<mapsto> rev (take (length b' - length b) b')), b', a'))
         (run U fl r (caps, b, a))"

text \<open>The match of a pattern at one position: the first state the matcher reaches.\<close>

definition match_at :: "unicode_db \<Rightarrow> bool \<Rightarrow> regex \<Rightarrow> pystr \<Rightarrow> pystr \<Rightarrow> mstate option" where
  "match_at U fl r b a = (case run U fl r (Map.empty, b, a) of [] \<Rightarrow> None | m # _ \<Rightarrow> Some m)"

text \<open>
  A match object: \<open>start()\<close>, \<open>end()\<close> and the groups. \<open>re.search\<close> tries the positions
  from left to right, the end of the text included.
\<close>

record match =
  m_start :: nat
  m_end :: nat
  m_group :: "nat \<rightharpoonup> pystr"

fun search_from :: "unicode_db \<Rightarrow> bool \<Rightarrow> regex \<Rightarrow> pystr \<Rightarrow> pystr \<Rightarrow> match option" where
  "search_from U fl r b [] =
     (case match_at U fl r b [] of
        None \<Rightarrow> None
      | Some (caps, b', a') \<Rightarrow> Some \<lparr>m_start = length b, m_end = length b', m_group = caps\<rparr>)"
| "search_from U fl r b (x # xs) =
     (case match_at U fl r b (x # xs) of
        None \<Rightarrow> search_from U fl r (x # b) xs
      | Some (caps, b', a') \<Rightarrow> Some \<lparr>m_start = length b, m_end = length b', m_group = caps\<rparr>)"

definition re_search :: "unicode_db \<Rightarrow> regex \<Rightarrow> pystr \<Rightarrow> bool \<Rightarrow> match option" where
  "re_search U r s fl = search_from U fl r [] s"

text \<open>
  \<open>re.finditer\<close> and \<open>re.sub\<close> scan the text once, left to right: where the pattern
  matches, the scan goes on behind the match; where it does not, one character further.
  No pattern of the program matches the empty string; behind an empty match the scan
  would copy one character and go on. A replacement is a template of characters and
  group references.
\<close>

function finditer_from :: "unicode_db \<Rightarrow> bool \<Rightarrow> regex \<Rightarrow> pystr \<Rightarrow> pystr \<Rightarrow> match list" where
  "finditer_from U fl r b a =
     (case match_at U fl r b a of
        None \<Rightarrow> (case a of [] \<Rightarrow> [] | x # xs \<Rightarrow> finditer_from U fl r (x # b) xs)
      | Some (caps, b', a') \<Rightarrow>
          \<lparr>m_start = length b, m_end = length b', m_group = caps\<rparr> #
          (if length a' < length a then finditer_from U fl r b' a'
           else (case a of [] \<Rightarrow> [] | x # xs \<Rightarrow> finditer_from U fl r (x # b) xs)))"
  by pat_completeness auto
termination
  by (relation "measure (\<lambda>(U, fl, r, b, a). length a)") auto

definition re_finditer :: "unicode_db \<Rightarrow> regex \<Rightarrow> pystr \<Rightarrow> match list" where
  "re_finditer U r s = finditer_from U False r [] s"

datatype ritem = RChr cp | RGrp nat

fun expand :: "ritem list \<Rightarrow> (nat \<rightharpoonup> pystr) \<Rightarrow> pystr" where
  "expand [] caps = []"
| "expand (RChr c # t) caps = c # expand t caps"
| "expand (RGrp n # t) caps = (case caps n of None \<Rightarrow> [] | Some g \<Rightarrow> g) @ expand t caps"

function sub_from :: "unicode_db \<Rightarrow> regex \<Rightarrow> ritem list \<Rightarrow> pystr \<Rightarrow> pystr \<Rightarrow> pystr" where
  "sub_from U r repl b a =
     (case match_at U False r b a of
        None \<Rightarrow> (case a of [] \<Rightarrow> [] | x # xs \<Rightarrow> x # sub_from U r repl (x # b) xs)
      | Some (caps, b', a') \<Rightarrow>
          expand repl caps @
          (if length a' < length a then sub_from U r repl b' a'
           else (case a of [] \<Rightarrow> [] | x # xs \<Rightarrow> x # sub_from U r repl (x # b) xs)))"
  by pat_completeness auto
termination
  by (relation "measure (\<lambda>(U, r, repl, b, a). length a)") auto

definition re_sub :: "unicode_db \<Rightarrow> regex \<Rightarrow> ritem list \<Rightarrow> pystr \<Rightarrow> pystr" where
  "re_sub U r repl s = sub_from U r repl [] s"

section \<open>clean\_field\_value\<close>

text \<open>
  The four shapes of the keys of the two tables, for an accent \<open>a\<close> and a letter \<open>x\<close>:
  \<^verbatim>\<open>\\a\{x\}\<close>, \<^verbatim>\<open>\\\'?\{x\}\<close>, \<^verbatim>\<open>\\name\b\<close> and \<^verbatim>\<open>\\ax\b\<close>.
\<close>

definition backslash :: cp where
  "backslash = 92"

definition braced :: "char \<Rightarrow> char \<Rightarrow> regex" where
  "braced a x = Seq (Lit backslash) (lits [of_char a, 123, of_char x, 125])"

definition acute_braced :: "char \<Rightarrow> regex" where
  "acute_braced x = Seq (Lit backslash) (Seq (Opt (Lit 39)) (lits [123, of_char x, 125]))"

definition command :: "string \<Rightarrow> regex" where
  "command name = Seq (Lit backslash) (Seq (lits (ascii name)) WordB)"

definition bare :: "char \<Rightarrow> char \<Rightarrow> regex" where
  "bare a x = Seq (Lit backslash) (Seq (lits [of_char a, of_char x]) WordB)"

definition latex_mappings :: "(regex \<times> pystr) list" where
  "latex_mappings = [
   (braced (CHR ''~'') (CHR ''n''), [0xF1]),
   (braced (CHR ''~'') (CHR ''N''), [0xD1]),
   (braced (CHR ''~'') (CHR ''a''), [0xE3]),
   (braced (CHR ''~'') (CHR ''A''), [0xC3]),
   (braced (CHR ''~'') (CHR ''o''), [0xF5]),
   (braced (CHR ''~'') (CHR ''O''), [0xD5]),
   (acute_braced (CHR ''a''), [0xE1]),
   (acute_braced (CHR ''A''), [0xC1]),
   (acute_braced (CHR ''e''), [0xE9]),
   (acute_braced (CHR ''E''), [0xC9]),
   (acute_braced (CHR ''i''), [0xED]),
   (acute_braced (CHR ''I''), [0xCD]),
   (acute_braced (CHR ''o''), [0xF3]),
   (acute_braced (CHR ''O''), [0xD3]),
   (acute_braced (CHR ''u''), [0xFA]),
   (acute_braced (CHR ''U''), [0xDA]),
   (acute_braced (CHR ''y''), [0xFD]),
   (acute_braced (CHR ''Y''), [0xDD]),
   (acute_braced (CHR ''c''), [0x107]),
   (acute_braced (CHR ''C''), [0x106]),
   (braced (CHR 0x60) (CHR ''a''), [0xE0]),
   (braced (CHR 0x60) (CHR ''A''), [0xC0]),
   (braced (CHR 0x60) (CHR ''e''), [0xE8]),
   (braced (CHR 0x60) (CHR ''E''), [0xC8]),
   (braced (CHR 0x60) (CHR ''i''), [0xEC]),
   (braced (CHR 0x60) (CHR ''I''), [0xCC]),
   (braced (CHR 0x60) (CHR ''o''), [0xF2]),
   (braced (CHR 0x60) (CHR ''O''), [0xD2]),
   (braced (CHR 0x60) (CHR ''u''), [0xF9]),
   (braced (CHR 0x60) (CHR ''U''), [0xD9]),
   (braced (CHR 0x22) (CHR ''a''), [0xE4]),
   (braced (CHR 0x22) (CHR ''A''), [0xC4]),
   (braced (CHR 0x22) (CHR ''e''), [0xEB]),
   (braced (CHR 0x22) (CHR ''E''), [0xCB]),
   (braced (CHR 0x22) (CHR ''i''), [0xEF]),
   (braced (CHR 0x22) (CHR ''I''), [0xCF]),
   (braced (CHR 0x22) (CHR ''o''), [0xF6]),
   (braced (CHR 0x22) (CHR ''O''), [0xD6]),
   (braced (CHR 0x22) (CHR ''u''), [0xFC]),
   (braced (CHR 0x22) (CHR ''U''), [0xDC]),
   (braced (CHR ''^'') (CHR ''a''), [0xE2]),
   (braced (CHR ''^'') (CHR ''A''), [0xC2]),
   (braced (CHR ''^'') (CHR ''e''), [0xEA]),
   (braced (CHR ''^'') (CHR ''E''), [0xCA]),
   (braced (CHR ''^'') (CHR ''i''), [0xEE]),
   (braced (CHR ''^'') (CHR ''I''), [0xCE]),
   (braced (CHR ''^'') (CHR ''o''), [0xF4]),
   (braced (CHR ''^'') (CHR ''O''), [0xD4]),
   (braced (CHR ''^'') (CHR ''u''), [0xFB]),
   (braced (CHR ''^'') (CHR ''U''), [0xDB]),
   (braced (CHR ''c'') (CHR ''c''), [0xE7]),
   (braced (CHR ''c'') (CHR ''C''), [0xC7]),
   (command ''ss'', [0xDF]),
   (command ''ae'', [0xE6]),
   (command ''AE'', [0xC6]),
   (command ''oe'', [0x153]),
   (command ''OE'', [0x152]),
   (command ''o'', [0xF8]),
   (command ''O'', [0xD8]),
   (command ''aa'', [0xE5]),
   (command ''AA'', [0xC5]),
   (command ''textquestiondown'', [0xBF]),
   (command ''textexclamdown'', [0xA1])]"

definition simple_mappings :: "(regex \<times> pystr) list" where
  "simple_mappings = [
   (bare (CHR ''~'') (CHR ''n''), [0xF1]),
   (bare (CHR ''~'') (CHR ''N''), [0xD1]),
   (bare (CHR 0x27) (CHR ''a''), [0xE1]),
   (bare (CHR 0x27) (CHR ''A''), [0xC1]),
   (bare (CHR 0x27) (CHR ''e''), [0xE9]),
   (bare (CHR 0x27) (CHR ''E''), [0xC9]),
   (bare (CHR 0x27) (CHR ''i''), [0xED]),
   (bare (CHR 0x27) (CHR ''I''), [0xCD]),
   (bare (CHR 0x27) (CHR ''o''), [0xF3]),
   (bare (CHR 0x27) (CHR ''O''), [0xD3]),
   (bare (CHR 0x27) (CHR ''u''), [0xFA]),
   (bare (CHR 0x27) (CHR ''U''), [0xDA]),
   (bare (CHR 0x60) (CHR ''a''), [0xE0]),
   (bare (CHR 0x60) (CHR ''A''), [0xC0]),
   (bare (CHR 0x60) (CHR ''e''), [0xE8]),
   (bare (CHR 0x60) (CHR ''E''), [0xC8]),
   (bare (CHR 0x60) (CHR ''i''), [0xEC]),
   (bare (CHR 0x60) (CHR ''I''), [0xCC]),
   (bare (CHR 0x60) (CHR ''o''), [0xF2]),
   (bare (CHR 0x60) (CHR ''O''), [0xD2]),
   (bare (CHR 0x60) (CHR ''u''), [0xF9]),
   (bare (CHR 0x60) (CHR ''U''), [0xD9]),
   (bare (CHR 0x22) (CHR ''a''), [0xE4]),
   (bare (CHR 0x22) (CHR ''A''), [0xC4]),
   (bare (CHR 0x22) (CHR ''e''), [0xEB]),
   (bare (CHR 0x22) (CHR ''E''), [0xCB]),
   (bare (CHR 0x22) (CHR ''i''), [0xEF]),
   (bare (CHR 0x22) (CHR ''I''), [0xCF]),
   (bare (CHR 0x22) (CHR ''o''), [0xF6]),
   (bare (CHR 0x22) (CHR ''O''), [0xD6]),
   (bare (CHR 0x22) (CHR ''u''), [0xFC]),
   (bare (CHR 0x22) (CHR ''U''), [0xDC])]"

text \<open>
  The fifth \<open>replace\<close> of the source is written
  \<^verbatim>\<open>value.replace('`', ''')\<close> with a comment behind it, and the line after it
  \<^verbatim>\<open>value = value.replace("'", ''')\<close> with another: the three quotes open a string
  literal that runs to the three quotes of the next line. So a backtick is replaced by
  that literal, which is \<open>backtick_replacement\<close>, and no statement replaces the straight
  single quote.
\<close>

definition backtick_replacement :: pystr where
  "backtick_replacement =
     ascii '')   # '' @ [0x5DE6, 0x5355, 0x5F15, 0x53F7, 10] @
     ascii ''    value = value.replace('' @ [34, 39, 34] @ ascii '', ''"

definition apply_mappings :: "unicode_db \<Rightarrow> (regex \<times> pystr) list \<Rightarrow> pystr \<Rightarrow> pystr" where
  "apply_mappings U mappings v = foldl (\<lambda>v (pat, c). re_sub U pat (map RChr c) v) v mappings"

text \<open>
  The argument is what \<open>match.group(1)\<close> returns: a string or \<open>None\<close>. Both \<open>None\<close>
  and the empty string are falsy and return at the first statement.
\<close>

definition clean_field_value :: "unicode_db \<Rightarrow> pystr option \<Rightarrow> pystr" where
  "clean_field_value U val =
     (case val of
        None \<Rightarrow> []
      | Some v0 \<Rightarrow>
          if v0 = [] then []
          else
            let v = apply_mappings U latex_mappings v0;
                v = apply_mappings U simple_mappings v;
                v = re_sub U (Seq (Lit 123) (Seq (Group 1 (Star (NotIn [CChar 123, CChar 125]))) (Lit 125)))
                      [RGrp 1] v;
                v = replace [45, 45] [0x2013] v;
                v = replace [45, 45, 45] [0x2014] v;
                v = replace [96, 96] [34] v;
                v = replace [39, 39] [34] v;
                v = replace [96] backtick_replacement v;
                v = re_sub U (Seq (Lit backslash)
                               (Seq (Plus (In [CRange 97 122, CRange 65 90])) (Star (In [CSpace]))))
                      [RChr 32] v;
                v = re_sub U (Seq (Lit backslash) (Group 1 Dot)) [RGrp 1] v;
                v = re_sub U (Plus (In [CSpace])) [RChr 32] v;
                v = strip v
            in v)"

section \<open>parse\_bibtex\_file\<close>

text \<open>
  The function is modelled from the decoded text of the file on; what it prints is left
  out. An entry is a Python dictionary: an association list in insertion order, in which
  an assignment to a key already there replaces its value in place.
\<close>

type_synonym entry = "(string \<times> pystr) list"

fun dict_set :: "entry \<Rightarrow> string \<Rightarrow> pystr \<Rightarrow> entry" where
  "dict_set [] k v = [(k, v)]"
| "dict_set ((k', v') # d) k v = (if k' = k then (k, v) # d else (k', v') # dict_set d k v)"

definition slice :: "pystr \<Rightarrow> nat \<Rightarrow> nat \<Rightarrow> pystr" where
  "slice s i j = take (j - i) (drop i s)"

text \<open>The pattern \<^verbatim>\<open>@(\w+)\{([^,\s]+),\<close>.\<close>

definition entry_pattern :: regex where
  "entry_pattern =
     Seq (Lit 64) (Seq (Group 1 (Plus (In [CWord])))
       (Seq (Lit 123) (Seq (Group 2 (Plus (NotIn [CChar 44, CSpace]))) (Lit 44))))"

text \<open>
  The two shapes of the field patterns:
  \<^verbatim>\<open>name\s*=\s*\{([^{}]*(?:\{[^{}]*\}[^{}]*)*)\}\<close> and \<^verbatim>\<open>name\s*=\s*\{([^}]+)\}\<close>.
\<close>

definition anchor :: "string \<Rightarrow> regex \<Rightarrow> regex" where
  "anchor name value =
     Seq (lits (ascii name)) (Seq (Star (In [CSpace])) (Seq (Lit 61) (Seq (Star (In [CSpace]))
       (Seq (Lit 123) (Seq (Group 1 value) (Lit 125))))))"

definition no_brace :: regex where
  "no_brace = Star (NotIn [CChar 123, CChar 125])"

definition balanced :: "string \<Rightarrow> regex" where
  "balanced name =
     anchor name (Seq no_brace (Star (Seq (Lit 123) (Seq no_brace (Seq (Lit 125) no_brace)))))"

definition scalar :: "string \<Rightarrow> regex" where
  "scalar name = anchor name (Plus (NotIn [CChar 125]))"

definition field_patterns :: "(string \<times> regex) list" where
  "field_patterns = [
   (''author'', balanced ''author''),
   (''title'', balanced ''title''),
   (''year'', scalar ''year''),
   (''journal'', balanced ''journal''),
   (''booktitle'', balanced ''booktitle''),
   (''publisher'', balanced ''publisher''),
   (''volume'', scalar ''volume''),
   (''number'', scalar ''number''),
   (''pages'', scalar ''pages''),
   (''doi'', scalar ''doi''),
   (''url'', scalar ''url''),
   (''abstract'', balanced ''abstract''),
   (''keywords'', balanced ''keywords''),
   (''location'', balanced ''location''),
   (''series'', balanced ''series''),
   (''isbn'', scalar ''isbn''),
   (''issn'', scalar ''issn''),
   (''address'', balanced ''address''),
   (''editor'', balanced ''editor''),
   (''organization'', balanced ''organization''),
   (''month'', scalar ''month''),
   (''note'', balanced ''note''),
   (''articleno'', scalar ''articleno''),
   (''numpages'', scalar ''numpages''),
   (''issue_date'', scalar ''issue_date'')]"

definition extract_fields :: "unicode_db \<Rightarrow> pystr \<Rightarrow> entry \<Rightarrow> entry" where
  "extract_fields U entry_content entry =
     foldl (\<lambda>entry (field_name, pattern).
              case re_search U pattern entry_content True of
                None \<Rightarrow> entry
              | Some m \<Rightarrow> dict_set entry field_name (clean_field_value U (m_group m 1)))
           entry field_patterns"

definition entry_content :: "pystr \<Rightarrow> match list \<Rightarrow> nat \<Rightarrow> match \<Rightarrow> pystr" where
  "entry_content content entry_matches i m =
     (let start_pos = m_start m;
          end_pos = (if i + 1 < length entry_matches then m_start (entry_matches ! (i + 1))
                     else length content)
      in slice content start_pos end_pos)"

text \<open>A method called on \<open>None\<close> raises \<open>AttributeError\<close>.\<close>

datatype error = AttributeError

definition parse_entry :: "unicode_db \<Rightarrow> pystr \<Rightarrow> match list \<Rightarrow> nat \<Rightarrow> match \<Rightarrow> error + entry" where
  "parse_entry U content entry_matches i m =
     (case m_group m 1 of
        None \<Rightarrow> Inl AttributeError
      | Some g1 \<Rightarrow>
          (case m_group m 2 of
             None \<Rightarrow> Inl AttributeError
           | Some g2 \<Rightarrow>
               let entry_type = lower U g1;
                   entry_key = strip g2;
                   body = entry_content content entry_matches i m;
                   entry = [(''type'', entry_type), (''key'', entry_key)]
               in Inr (extract_fields U body entry)))"

text \<open>The loop over the entries: the first exception ends it.\<close>

fun collect :: "(error + 'a) list \<Rightarrow> error + 'a list" where
  "collect [] = Inr []"
| "collect (Inl e # rs) = Inl e"
| "collect (Inr x # rs) = (case collect rs of Inl e \<Rightarrow> Inl e | Inr xs \<Rightarrow> Inr (x # xs))"

definition parse_bibtex_file :: "unicode_db \<Rightarrow> pystr \<Rightarrow> error + entry list" where
  "parse_bibtex_file U content =
     (let entry_matches = re_finditer U entry_pattern content
      in collect (map (\<lambda>(i, m). parse_entry U content entry_matches i m)
                      (enumerate 0 entry_matches)))"

section \<open>Auxiliary notions\<close>

text \<open>
  \<open>first_ok\<close> is a necessary condition on the first character of a match and
  \<open>nonempty\<close> a sufficient condition for a match to read at least one character.
\<close>

fun first_ok :: "unicode_db \<Rightarrow> bool \<Rightarrow> regex \<Rightarrow> cp \<Rightarrow> bool" where
  "first_ok U fl (Lit c) x = (x = c)"
| "first_ok U fl Dot x = (fl \<or> x \<noteq> 10)"
| "first_ok U fl (In items) x = in_items U items x"
| "first_ok U fl (NotIn items) x = (\<not> in_items U items x)"
| "first_ok U fl (Seq r1 r2) x = first_ok U fl r1 x"
| "first_ok U fl (Group n r) x = first_ok U fl r x"
| "first_ok U fl r x = True"

fun nonempty :: "regex \<Rightarrow> bool" where
  "nonempty (Lit c) = True"
| "nonempty Dot = True"
| "nonempty (In items) = True"
| "nonempty (NotIn items) = True"
| "nonempty (Seq r1 r2) = (nonempty r1 \<or> nonempty r2)"
| "nonempty (Group n r) = nonempty r"
| "nonempty r = False"

text \<open>
  A table for closed examples: the alphanumeric characters of Latin-1 beyond ASCII, and
  no lower-casing beyond ASCII. It agrees with the interpreter's tables on the text of
  the examples below.
\<close>

definition latin1_db :: unicode_db where
  "latin1_db =
     \<lparr>db_alnum = (\<lambda>c. c \<in> {0xAA, 0xB2, 0xB3, 0xB5, 0xB9, 0xBA, 0xBC, 0xBD, 0xBE}
                        \<or> (0xC0 \<le> c \<and> c \<le> 0xFF \<and> c \<noteq> 0xD7 \<and> c \<noteq> 0xF7)),
      db_lower = (\<lambda>s. s)\<rparr>"

text \<open>
  \<open>adjacent c s\<close>: the character \<open>c\<close> occurs twice in a row in \<open>s\<close>. \<open>collapse\<close> is
  what the substitution of a space for \<^verbatim>\<open>\s+\<close> computes, and \<open>squeezed\<close> describes its
  results: white space occurs only as single spaces.
\<close>

fun adjacent :: "cp \<Rightarrow> pystr \<Rightarrow> bool" where
  "adjacent c (x # y # zs) = ((x = c \<and> y = c) \<or> adjacent c (y # zs))"
| "adjacent c zs = False"

function collapse :: "pystr \<Rightarrow> pystr" where
  "collapse [] = []"
| "collapse (x # xs) =
     (if is_space x then 32 # collapse (dropWhile is_space xs) else x # collapse xs)"
  by pat_completeness auto
termination
  by (relation "measure length") (auto simp: length_dropWhile_le less_Suc_eq_le)

fun squeezed :: "pystr \<Rightarrow> bool" where
  "squeezed [] = True"
| "squeezed [x] = (is_space x \<longrightarrow> x = 32)"
| "squeezed (x # y # ys) = ((is_space x \<longrightarrow> x = 32 \<and> \<not> is_space y) \<and> squeezed (y # ys))"

text \<open>
  \<open>binds n r\<close>: every match of \<open>r\<close> sets group \<open>n\<close>. \<open>bodies\<close> are the texts the loop of
  \<open>parse_bibtex_file\<close> slices for the markers, \<open>cuts\<close> are the slices between
  consecutive offsets, and \<open>entry_of\<close> is the entry the loop builds from a marker and its
  body (groups 1 and 2 of a marker always exist).
\<close>

fun binds :: "nat \<Rightarrow> regex \<Rightarrow> bool" where
  "binds n (Group k r) = (k = n \<or> binds n r)"
| "binds n (Seq r1 r2) = (binds n r1 \<or> binds n r2)"
| "binds n r = False"

definition bodies :: "pystr \<Rightarrow> match list \<Rightarrow> pystr list" where
  "bodies content entry_matches =
     map (\<lambda>(i, m). entry_content content entry_matches i m) (enumerate 0 entry_matches)"

fun cuts :: "pystr \<Rightarrow> nat list \<Rightarrow> pystr list" where
  "cuts content [] = []"
| "cuts content [s] = [slice content s (length content)]"
| "cuts content (s # s' # rest) = slice content s s' # cuts content (s' # rest)"

definition entry_of :: "unicode_db \<Rightarrow> match \<Rightarrow> pystr \<Rightarrow> entry" where
  "entry_of U m body =
     extract_fields U body [(''type'', lower U (the (m_group m 1))), (''key'', strip (the (m_group m 2)))]"

text \<open>
  A value with one level of braces is brace-free text followed by groups, each a
  brace-free text in braces followed by brace-free text: \<open>t0 @ groups gts\<close>.
  \<open>brace_group\<close> is the pattern of one group. \<open>leads U fl r st st'\<close>: the first state the
  matcher reaches from \<open>st\<close> is \<open>st'\<close>.
\<close>

definition brace_free :: "pystr \<Rightarrow> bool" where
  "brace_free s \<longleftrightarrow> 123 \<notin> set s \<and> 125 \<notin> set s"

fun groups :: "(pystr \<times> pystr) list \<Rightarrow> pystr" where
  "groups [] = []"
| "groups ((g, t) # gts) = 123 # g @ 125 # t @ groups gts"

definition leads :: "unicode_db \<Rightarrow> bool \<Rightarrow> regex \<Rightarrow> mstate \<Rightarrow> mstate \<Rightarrow> bool" where
  "leads U fl r st st' = (case run U fl r st of [] \<Rightarrow> False | s # _ \<Rightarrow> s = st')"

definition brace_group :: regex where
  "brace_group = Seq (Lit 123) (Seq no_brace (Seq (Lit 125) no_brace))"


section \<open>Facts about the matcher\<close>

declare run.simps(9) [simp del]

lemma run_Star_mem:
  "st' \<in> set (run U fl (Star r) st) \<longleftrightarrow>
     st' = st \<or> (\<exists>s1 \<in> set (run U fl r st).
        length (snd (snd s1)) < length (snd (snd st)) \<and> st' \<in> set (run U fl (Star r) s1))"
  by (subst run.simps(9)) (auto split: if_splits)

lemma step_char_split:
  "st' \<in> set (step_char P (caps, b, a)) \<Longrightarrow>
     \<exists>x. P x \<and> st' = (caps, x # b, tl a) \<and> a = x # tl a"
  by (cases a) (auto split: if_splits)

lemma run_split:
  "st' \<in> set (run U fl r st) \<Longrightarrow>
     \<exists>w. fst (snd st') = rev w @ fst (snd st) \<and> snd (snd st) = w @ snd (snd st')"
proof (induction U fl r st arbitrary: st' rule: run.induct)
  case (1 U fl st)
  then show ?case by simp
next
  case (2 U fl c st)
  then show ?case by (cases st) (fastforce dest: step_char_split)
next
  case (3 U fl st)
  then show ?case by (cases st) (fastforce dest: step_char_split)
next
  case (4 U fl items st)
  then show ?case by (cases st) (fastforce dest: step_char_split)
next
  case (5 U fl items st)
  then show ?case by (cases st) (fastforce dest: step_char_split)
next
  case (6 U fl caps b a)
  then show ?case by (auto split: if_splits)
next
  case (7 U fl r1 r2 st)
  from "7.prems" obtain s1 where s1: "s1 \<in> set (run U fl r1 st)" and s2: "st' \<in> set (run U fl r2 s1)"
    by auto
  from "7.IH"(1)[OF s1] obtain w1 where w1: "fst (snd s1) = rev w1 @ fst (snd st)" "snd (snd st) = w1 @ snd (snd s1)"
    by blast
  from "7.IH"(2)[OF s1 s2] obtain w2 where w2: "fst (snd st') = rev w2 @ fst (snd s1)" "snd (snd s1) = w2 @ snd (snd st')"
    by blast
  show ?case
    by (rule exI[of _ "w1 @ w2"]) (simp add: w1 w2)
next
  case (8 U fl r st)
  show ?case
  proof (cases "st' = st")
    case True
    then show ?thesis by simp
  next
    case False
    with "8.prems" have "st' \<in> set (run U fl r st)" by simp
    then show ?thesis by (rule "8.IH")
  qed
next
  case (9 U fl r st)
  show ?case
  proof (cases "st' = st")
    case True
    then show ?thesis by simp
  next
    case False
    with "9.prems" obtain s1 where s1: "s1 \<in> set (run U fl r st)"
      and lt: "length (snd (snd s1)) < length (snd (snd st))"
      and s2: "st' \<in> set (run U fl (Star r) s1)"
      using run_Star_mem[of st' U fl r st] by blast
    from "9.IH"(1)[OF s1] obtain w1 where w1: "fst (snd s1) = rev w1 @ fst (snd st)" "snd (snd st) = w1 @ snd (snd s1)"
      by blast
    from "9.IH"(2)[OF s1 lt s2] obtain w2 where w2: "fst (snd st') = rev w2 @ fst (snd s1)" "snd (snd s1) = w2 @ snd (snd st')"
      by blast
    show ?thesis
      by (rule exI[of _ "w1 @ w2"]) (simp add: w1 w2)
  qed
next
  case (10 U fl n r caps b a)
  then show ?case by fastforce
qed

lemma run_first_ok:
  "\<not> first_ok U fl r x \<Longrightarrow> run U fl r (caps, b, x # xs) = []"
  by (induction U fl r x arbitrary: caps b rule: first_ok.induct) auto

lemma run_nonempty_end:
  "nonempty r \<Longrightarrow> run U fl r (caps, b, []) = []"
proof (induction r arbitrary: caps b)
  case (Seq r1 r2)
  show ?case
  proof (cases "nonempty r1")
    case True
    then show ?thesis using Seq.IH(1) by simp
  next
    case False
    with Seq.prems have n2: "nonempty r2" by simp
    have "run U fl r2 s1 = []" if "s1 \<in> set (run U fl r1 (caps, b, []))" for s1
    proof -
      from run_split[OF that] have "snd (snd s1) = []" by auto
      then obtain c1 b1 where "s1 = (c1, b1, [])" by (cases s1) auto
      then show ?thesis using Seq.IH(2)[OF n2] by simp
    qed
    then show ?thesis by simp
  qed
qed auto

declare sub_from.simps [simp del] finditer_from.simps [simp del]

lemma match_at_first_ok: "\<not> first_ok U fl r x \<Longrightarrow> match_at U fl r b (x # xs) = None"
  by (simp add: match_at_def run_first_ok)

lemma match_at_end: "nonempty r \<Longrightarrow> match_at U fl r b [] = None"
  by (simp add: match_at_def run_nonempty_end)

lemma sub_from_skip:
  "\<not> first_ok U False r x \<Longrightarrow> sub_from U r repl b (x # xs) = x # sub_from U r repl (x # b) xs"
  by (subst sub_from.simps) (simp add: match_at_first_ok)

lemma sub_from_end: "nonempty r \<Longrightarrow> sub_from U r repl b [] = []"
  by (subst sub_from.simps) (simp add: match_at_end)

lemma sub_from_try:
  "first_ok U False r x \<Longrightarrow> sub_from U r repl b (x # xs) =
     (case match_at U False r b (x # xs) of
        None \<Rightarrow> x # sub_from U r repl (x # b) xs
      | Some (caps, b', a') \<Rightarrow>
          expand repl caps @
          (if length a' < Suc (length xs) then sub_from U r repl b' a'
           else x # sub_from U r repl (x # b) xs))"
  by (subst sub_from.simps) (simp split: option.splits)

lemma sub_from_id:
  "nonempty r \<Longrightarrow> \<forall>x \<in> set a. \<not> first_ok U False r x \<Longrightarrow> sub_from U r repl b a = a"
  by (induction a arbitrary: b) (simp_all add: sub_from_end sub_from_skip)

lemma re_sub_id:
  "nonempty r \<Longrightarrow> \<forall>x \<in> set s. \<not> first_ok U False r x \<Longrightarrow> re_sub U r repl s = s"
  by (simp add: re_sub_def sub_from_id)

lemma first_ok_braced [simp]: "first_ok U fl (braced a x) c = (c = 92)"
  by (simp add: braced_def backslash_def)
lemma first_ok_acute_braced [simp]: "first_ok U fl (acute_braced x) c = (c = 92)"
  by (simp add: acute_braced_def backslash_def)
lemma first_ok_command [simp]: "first_ok U fl (command n) c = (c = 92)"
  by (simp add: command_def backslash_def)
lemma first_ok_bare [simp]: "first_ok U fl (bare a x) c = (c = 92)"
  by (simp add: bare_def backslash_def)
lemma nonempty_shapes [simp]:
  "nonempty (braced a x)" "nonempty (acute_braced x)" "nonempty (command n)" "nonempty (bare a x)"
  by (simp_all add: braced_def acute_braced_def command_def bare_def)

lemma latex_mappings_shape:
  "(pat, c) \<in> set latex_mappings \<Longrightarrow> nonempty pat \<and> (\<forall>x. first_ok U fl pat x = (x = 92))"
  unfolding latex_mappings_def by (auto simp del: of_char_Char)

lemma simple_mappings_shape:
  "(pat, c) \<in> set simple_mappings \<Longrightarrow> nonempty pat \<and> (\<forall>x. first_ok U fl pat x = (x = 92))"
  unfolding simple_mappings_def by (auto)

lemma apply_mappings_id:
  "\<forall>(pat, c) \<in> set ms. nonempty pat \<and> (\<forall>x \<in> set v. \<not> first_ok U False pat x) \<Longrightarrow>
     apply_mappings U ms v = v"
  unfolding apply_mappings_def
  by (induction ms) (auto simp: re_sub_id)

lemma apply_latex_id: "92 \<notin> set v \<Longrightarrow> apply_mappings U latex_mappings v = v"
  by (rule apply_mappings_id) (auto dest!: latex_mappings_shape[where U=U and fl=False])

lemma apply_simple_id: "92 \<notin> set v \<Longrightarrow> apply_mappings U simple_mappings v = v"
  by (rule apply_mappings_id) (auto dest!: simple_mappings_shape[where U=U and fl=False])

subsection \<open>Evaluation on a given text\<close>

lemma run_Star_unfold:
  "run U fl (Star r) (caps, b, a) =
     concat (map (\<lambda>st'. if length (snd (snd st')) < length a then run U fl (Star r) st' else [])
                 (run U fl r (caps, b, a))) @ [(caps, b, a)]"
  by (subst run.simps(9)) simp

lemmas re_eval = sub_from_skip sub_from_end sub_from_try re_sub_def match_at_def run_Star_unfold
  braced_def acute_braced_def command_def bare_def backslash_def Plus_def
  in_items_def is_space_def is_word_def ascii_def

lemmas clean_eval = clean_field_value_def Let_def apply_mappings_def latex_mappings_def
  simple_mappings_def re_eval replace_def strip_def

subsection \<open>Text without escapes, and white space\<close>

lemma replace_loop_absent:
  "c \<notin> set s \<Longrightarrow> replace_loop (c # old) new 0 s = s"
  by (induction s) auto

lemma replace_loop_not_adjacent:
  "\<not> adjacent c s \<Longrightarrow> replace_loop (c # c # old) new 0 s = s"
  by (induction c s rule: adjacent.induct) auto

lemma run_Star_In_hd:
  "\<exists>rest. run U fl (Star (In items)) (caps, b, a) =
     (caps, rev (takeWhile (in_items U items) a) @ b, dropWhile (in_items U items) a) # rest"
proof (induction a arbitrary: b)
  case Nil
  then show ?case by (simp add: run_Star_unfold)
next
  case (Cons x xs)
  show ?case
  proof (cases "in_items U items x")
    case True
    from Cons[of "x # b"] obtain rest where
      "run U fl (Star (In items)) (caps, x # b, xs) =
         (caps, rev (takeWhile (in_items U items) xs) @ x # b, dropWhile (in_items U items) xs) # rest"
      by blast
    with True show ?thesis by (simp add: run_Star_unfold)
  next
    case False
    then show ?thesis by (simp add: run_Star_unfold)
  qed
qed

lemma match_at_spaces:
  assumes "is_space x"
  shows "match_at U fl (Plus (In [CSpace])) b (x # xs) =
     Some (Map.empty, rev (takeWhile is_space xs) @ x # b, dropWhile is_space xs)"
proof -
  have P: "in_items U [CSpace] = is_space" by (auto simp: in_items_def)
  from run_Star_In_hd[of U fl "[CSpace]" Map.empty "x # b" xs] obtain rest where
    "run U fl (Star (In [CSpace])) (Map.empty, x # b, xs) =
       (Map.empty, rev (takeWhile is_space xs) @ x # b, dropWhile is_space xs) # rest"
    unfolding P by blast
  with assms show ?thesis by (simp add: match_at_def Plus_def P)
qed

lemma sub_from_spaces:
  "sub_from U (Plus (In [CSpace])) [RChr 32] b a = collapse a"
proof (induction a arbitrary: b rule: collapse.induct)
  case 1
  then show ?case by (simp add: sub_from_end Plus_def)
next
  case (2 x xs)
  show ?case
  proof (cases "is_space x")
    case True
    have "length (dropWhile is_space xs) < Suc (length xs)"
      by (simp add: length_dropWhile_le less_Suc_eq_le)
    with True 2(1)[OF True] show ?thesis
      by (subst sub_from.simps) (simp add: match_at_spaces)
  next
    case False
    then have "\<not> first_ok U False (Plus (In [CSpace])) x" by (simp add: Plus_def in_items_def)
    with False 2(2)[OF False] show ?thesis by (simp add: sub_from_skip)
  qed
qed

lemma squeezed_collapse: "squeezed (collapse a)"
proof (induction a rule: collapse.induct)
  case 1
  then show ?case by simp
next
  case (2 x xs)
  show ?case
  proof (cases "is_space x")
    case True
    note IH = 2(1)[OF True]
    show ?thesis
    proof (cases "dropWhile is_space xs")
      case Nil
      have "is_space 32" by (simp add: is_space_def)
      with True Nil show ?thesis by (simp del: dropWhile_eq_Nil_conv)
    next
      case (Cons y ys)
      then have "\<not> is_space y" by (simp add: dropWhile_eq_Cons_conv)
      with True IH Cons show ?thesis by simp
    qed
  next
    case False
    with 2(2)[OF False] show ?thesis by (cases "collapse xs") auto
  qed
qed

lemma collapse_squeezed: "squeezed w \<Longrightarrow> collapse w = w"
  by (induction w rule: squeezed.induct) auto

lemma squeezed_tl: "squeezed (x # xs) \<Longrightarrow> squeezed xs"
  by (cases xs) auto

lemma squeezed_dropWhile: "squeezed w \<Longrightarrow> squeezed (dropWhile P w)"
  by (induction w) (auto dest: squeezed_tl)

lemma squeezed_take: "squeezed w \<Longrightarrow> squeezed (take n w)"
proof (induction w arbitrary: n rule: squeezed.induct)
  case 1
  then show ?case by simp
next
  case (2 x)
  then show ?case by (cases n) auto
next
  case (3 x y ys)
  show ?case
  proof (cases n)
    case 0
    then show ?thesis by simp
  next
    case (Suc m)
    from 3 have IH: "squeezed (take m (y # ys))" by simp
    show ?thesis
    proof (cases m)
      case 0
      with Suc 3(2) show ?thesis by simp
    next
      case (Suc k)
      with \<open>n = Suc m\<close> IH 3(2) show ?thesis by simp
    qed
  qed
qed

lemma rev_dropWhile_rev: "rev (dropWhile P (rev d)) = take (length d - length (takeWhile P (rev d))) d"
proof -
  have "rev d = takeWhile P (rev d) @ dropWhile P (rev d)" by simp
  then have "d = rev (dropWhile P (rev d)) @ rev (takeWhile P (rev d))"
    by (metis rev_append rev_rev_ident)
  then have "take (length d - length (takeWhile P (rev d))) d
      = take (length (rev (dropWhile P (rev d)))) (rev (dropWhile P (rev d)) @ rev (takeWhile P (rev d)))"
    by (metis (no_types, lifting) add_diff_cancel_right' length_append length_rev)
  then show ?thesis by simp
qed

lemma squeezed_strip: "squeezed w \<Longrightarrow> squeezed (strip w)"
  unfolding strip_def by (simp add: rev_dropWhile_rev squeezed_take squeezed_dropWhile)

lemma strip_fixed:
  assumes "t = [] \<or> (\<not> is_space (hd t) \<and> \<not> is_space (last t))"
  shows "strip t = t"
proof (cases "t = []")
  case True
  then show ?thesis by (simp add: strip_def)
next
  case False
  with assms have h: "\<not> is_space (hd t)" and l: "\<not> is_space (last t)" by auto
  from False h have 1: "dropWhile is_space t = t" by (simp add: dropWhile_eq_self_iff)
  from False l have 2: "dropWhile is_space (rev t) = rev t"
    by (simp add: dropWhile_eq_self_iff hd_rev)
  show ?thesis by (simp add: strip_def 1 2)
qed

lemma strip_ends: "strip w = [] \<or> (\<not> is_space (hd (strip w)) \<and> \<not> is_space (last (strip w)))"
proof (cases "strip w = []")
  case True
  then show ?thesis by simp
next
  case False
  define d where "d = dropWhile is_space w"
  define e where "e = dropWhile is_space (rev d)"
  have t: "strip w = rev e" by (simp add: strip_def d_def e_def)
  with False have e: "e \<noteq> []" by simp
  then have l: "\<not> is_space (hd e)" unfolding e_def by (rule hd_dropWhile)
  from e obtain y where y: "y \<in> set (rev d)" "\<not> is_space y" unfolding e_def by auto
  then have "last e = last (rev d)" unfolding e_def by (rule dropWhile_last)
  moreover from y have dne: "d \<noteq> []" by auto
  ultimately have "last e = hd d" by (simp add: last_rev)
  moreover from dne have "\<not> is_space (hd d)" unfolding d_def by (rule hd_dropWhile)
  ultimately have h: "\<not> is_space (last e)" by simp
  from e l h show ?thesis by (simp add: t hd_rev last_rev)
qed

lemma strip_strip: "strip (strip w) = strip w"
  by (rule strip_fixed) (rule strip_ends)

lemma re_sub_spaces: "re_sub U (Plus (In [CSpace])) [RChr 32] s = collapse s"
  by (simp add: re_sub_def sub_from_spaces)

lemma clean_field_value_shape: "\<exists>x. clean_field_value U val = strip (collapse x)"
proof (cases val)
  case None
  have "clean_field_value U None = strip (collapse [])" by (simp add: clean_field_value_def strip_def)
  with None show ?thesis by blast
next
  case (Some v0)
  show ?thesis
  proof (cases "v0 = []")
    case True
    have "clean_field_value U (Some []) = strip (collapse [])"
      by (simp add: clean_field_value_def strip_def)
    with Some True show ?thesis by blast
  next
    case False
    with Some show ?thesis
      by (simp add: clean_field_value_def Let_def re_sub_spaces) blast
  qed
qed

lemma clean_field_value_plain:
  assumes "92 \<notin> set w" "123 \<notin> set w" "96 \<notin> set w" "\<not> adjacent 45 w" "\<not> adjacent 39 w"
  shows "clean_field_value U (Some w) = strip (collapse w)"
proof (cases "w = []")
  case True
  then show ?thesis by (simp add: clean_field_value_def strip_def)
next
  case False
  have 1: "apply_mappings U latex_mappings w = w" using assms(1) by (rule apply_latex_id)
  have 2: "apply_mappings U simple_mappings w = w" using assms(1) by (rule apply_simple_id)
  have 3: "re_sub U (Seq (Lit 123) r) repl w = w" for r repl
    using assms(2) by (intro re_sub_id) auto
  have 4: "re_sub U (Seq (Lit backslash) r) repl w = w" for r repl
    using assms(1) by (intro re_sub_id) (auto simp: backslash_def)
  have 5: "replace [45, 45] new w = w" "replace [45, 45, 45] new w = w" for new
    using assms(4) by (simp_all add: replace_def replace_loop_not_adjacent)
  have 6: "replace [96, 96] new w = w" "replace [96] new w = w" for new
    using assms(3) by (simp_all add: replace_def replace_loop_absent)
  have 7: "replace [39, 39] new w = w" for new
    using assms(5) by (simp add: replace_def replace_loop_not_adjacent)
  from False show ?thesis
    by (simp add: clean_field_value_def Let_def 1 2 3 4 5 6 7 re_sub_spaces)
qed

subsection \<open>Searching, markers and entries\<close>

lemma search_from_skip:
  "\<not> first_ok U fl r x \<Longrightarrow> search_from U fl r b (x # xs) = search_from U fl r (x # b) xs"
  by (simp add: match_at_first_ok)

lemma search_from_end: "nonempty r \<Longrightarrow> search_from U fl r b [] = None"
  by (simp add: match_at_end)

lemma finditer_from_skip:
  "\<not> first_ok U fl r x \<Longrightarrow> finditer_from U fl r b (x # xs) = finditer_from U fl r (x # b) xs"
  by (subst finditer_from.simps) (simp add: match_at_first_ok)

lemma finditer_from_end: "nonempty r \<Longrightarrow> finditer_from U fl r b [] = []"
  by (subst finditer_from.simps) (simp add: match_at_end)

lemma finditer_from_try:
  "first_ok U fl r x \<Longrightarrow> finditer_from U fl r b (x # xs) =
     (case match_at U fl r b (x # xs) of
        None \<Rightarrow> finditer_from U fl r (x # b) xs
      | Some (caps, b', a') \<Rightarrow>
          \<lparr>m_start = length b, m_end = length b', m_group = caps\<rparr> #
          (if length a' < Suc (length xs) then finditer_from U fl r b' a'
           else finditer_from U fl r (x # b) xs))"
  by (subst finditer_from.simps) (simp split: option.splits)

lemma first_ok_lits [simp]: "first_ok U fl (lits (c # cs)) x = (x = c)"
  by (cases cs) simp_all

lemma nonempty_lits [simp]: "nonempty (lits (c # cs))"
  by (cases cs) simp_all

lemmas parse_eval = parse_bibtex_file_def re_finditer_def entry_pattern_def parse_entry_def
  entry_content_def slice_def extract_fields_def field_patterns_def re_search_def
  balanced_def scalar_def anchor_def no_brace_def lower_def
  finditer_from_skip finditer_from_end finditer_from_try search_from_skip search_from_end

lemma run_keeps_group:
  "st' \<in> set (run U fl r st) \<Longrightarrow> fst st n \<noteq> None \<Longrightarrow> fst st' n \<noteq> None"
proof (induction U fl r st arbitrary: st' rule: run.induct)
  case (7 U fl r1 r2 st)
  from "7.prems"(1) obtain s1 where s1: "s1 \<in> set (run U fl r1 st)" and s2: "st' \<in> set (run U fl r2 s1)"
    by auto
  from "7.IH"(1)[OF s1 "7.prems"(2)] have "fst s1 n \<noteq> None" .
  from "7.IH"(2)[OF s1 s2 this] show ?case .
next
  case (8 U fl r st)
  then show ?case by (cases "st' = st") auto
next
  case (9 U fl r st)
  show ?case
  proof (cases "st' = st")
    case True
    with "9.prems" show ?thesis by simp
  next
    case False
    with "9.prems"(1) obtain s1 where s1: "s1 \<in> set (run U fl r st)"
      and lt: "length (snd (snd s1)) < length (snd (snd st))"
      and s2: "st' \<in> set (run U fl (Star r) s1)"
      using run_Star_mem[of st' U fl r st] by blast
    from "9.IH"(1)[OF s1 "9.prems"(2)] have "fst s1 n \<noteq> None" .
    from "9.IH"(2)[OF s1 lt s2 this] show ?thesis .
  qed
next
  case (10 U fl k r caps b a)
  from "10.prems"(1) obtain s1 where s1: "s1 \<in> set (run U fl r (caps, b, a))"
    and st': "st' = ((fst s1)(k \<mapsto> rev (take (length (fst (snd s1)) - length b) (fst (snd s1)))),
                     fst (snd s1), snd (snd s1))"
    by (auto simp: case_prod_beta)
  from "10.IH"[OF s1 "10.prems"(2)] have "fst s1 n \<noteq> None" .
  then show ?case by (simp add: st')
qed (auto dest!: step_char_split split: if_splits)

lemma run_binds:
  "st' \<in> set (run U fl r st) \<Longrightarrow> binds n r \<Longrightarrow> fst st' n \<noteq> None"
proof (induction r arbitrary: st st')
  case (Seq r1 r2)
  from Seq.prems(1) obtain s1 where s1: "s1 \<in> set (run U fl r1 st)" and s2: "st' \<in> set (run U fl r2 s1)"
    by auto
  show ?case
  proof (cases "binds n r2")
    case True
    from Seq.IH(2)[OF s2 True] show ?thesis .
  next
    case False
    with Seq.prems(2) have "binds n r1" by simp
    from Seq.IH(1)[OF s1 this] have "fst s1 n \<noteq> None" .
    from run_keeps_group[OF s2 this] show ?thesis .
  qed
next
  case (Group k r)
  obtain caps b a where st: "st = (caps, b, a)" by (cases st)
  from Group.prems(1) obtain s1 where s1: "s1 \<in> set (run U fl r st)"
    and st': "st' = ((fst s1)(k \<mapsto> rev (take (length (fst (snd s1)) - length b) (fst (snd s1)))),
                     fst (snd s1), snd (snd s1))"
    by (auto simp: st case_prod_beta)
  show ?case
  proof (cases "k = n")
    case True
    then show ?thesis by (simp add: st')
  next
    case False
    with Group.prems(2) have "binds n r" by simp
    from Group.IH[OF s1 this] show ?thesis by (simp add: st')
  qed
qed simp_all

lemma match_at_mem:
  "match_at U fl r b a = Some st' \<Longrightarrow> st' \<in> set (run U fl r (Map.empty, b, a))"
  by (auto simp: match_at_def split: list.splits)

lemma match_at_binds: "match_at U fl r b a = Some (caps, b', a') \<Longrightarrow> binds n r \<Longrightarrow> caps n \<noteq> None"
  using run_binds[OF match_at_mem, of U fl r b a "(caps, b', a')" n] by simp

lemma match_at_split:
  "match_at U fl r b a = Some (caps, b', a') \<Longrightarrow> \<exists>w. b' = rev w @ b \<and> a = w @ a'"
  using run_split[OF match_at_mem, of U fl r b a "(caps, b', a')"] by simp

lemma finditer_from_props:
  "m \<in> set (finditer_from U fl r b a) \<Longrightarrow>
     length b \<le> m_start m \<and> m_start m \<le> length b + length a \<and>
     (nonempty r \<longrightarrow> m_start m < length b + length a) \<and>
     (binds n r \<longrightarrow> m_group m n \<noteq> None)"
proof (induction U fl r b a rule: finditer_from.induct)
  case (1 U fl r b a)
  show ?case
  proof (cases "match_at U fl r b a")
    case None
    show ?thesis
    proof (cases a)
      case Nil
      with None "1.prems" show ?thesis by (subst (asm) finditer_from.simps) simp
    next
      case (Cons x xs)
      with None "1.prems" have "m \<in> set (finditer_from U fl r (x # b) xs)"
        by (subst (asm) finditer_from.simps) simp
      from "1.IH"(1)[OF None Cons this] Cons show ?thesis by simp
    qed
  next
    case (Some st)
    obtain caps b' a' where st: "st = (caps, b', a')" by (cases st)
    from match_at_split[OF Some[unfolded st]] obtain w where w: "b' = rev w @ b" "a = w @ a'" by blast
    let ?m = "\<lparr>m_start = length b, m_end = length b', m_group = caps\<rparr>"
    have "nonempty r \<longrightarrow> a \<noteq> []" using Some by (auto simp: match_at_end)
    then have hd: "length b \<le> m_start ?m \<and> m_start ?m \<le> length b + length a \<and>
        (nonempty r \<longrightarrow> m_start ?m < length b + length a) \<and>
        (binds n r \<longrightarrow> m_group ?m n \<noteq> None)"
      using match_at_binds[OF Some[unfolded st], of n] by simp
    show ?thesis
    proof (cases "length a' < length a")
      case True
      with Some st "1.prems" have "m = ?m \<or> m \<in> set (finditer_from U fl r b' a')"
        by (subst (asm) finditer_from.simps) simp
      then show ?thesis
      proof
        assume "m = ?m" with hd show ?thesis by simp
      next
        assume "m \<in> set (finditer_from U fl r b' a')"
        from "1.IH"(2)[OF Some[unfolded st] refl refl True this] w show ?thesis
          by (auto simp: ac_simps)
      qed
    next
      case False
      show ?thesis
      proof (cases a)
        case Nil
        with Some st False "1.prems" have "m = ?m"
          by (subst (asm) finditer_from.simps) simp
        with hd show ?thesis by simp
      next
        case (Cons x xs)
        with Some st False "1.prems" have "m = ?m \<or> m \<in> set (finditer_from U fl r (x # b) xs)"
          by (subst (asm) finditer_from.simps) simp
        then show ?thesis
        proof
          assume "m = ?m" with hd show ?thesis by simp
        next
          assume "m \<in> set (finditer_from U fl r (x # b) xs)"
          from "1.IH"(3)[OF Some[unfolded st] refl refl False Cons this] Cons show ?thesis by simp
        qed
      qed
    qed
  qed
qed

lemma finditer_from_sorted: "sorted_wrt (<) (map m_start (finditer_from U fl r b a))"
proof (induction U fl r b a rule: finditer_from.induct)
  case (1 U fl r b a)
  show ?case
  proof (cases "match_at U fl r b a")
    case None
    show ?thesis
    proof (cases a)
      case Nil
      with None show ?thesis by (subst finditer_from.simps) simp
    next
      case (Cons x xs)
      with None "1.IH"(1)[OF None Cons] show ?thesis by (subst finditer_from.simps) simp
    qed
  next
    case (Some st)
    obtain caps b' a' where st: "st = (caps, b', a')" by (cases st)
    from match_at_split[OF Some[unfolded st]] obtain w where w: "b' = rev w @ b" "a = w @ a'" by blast
    show ?thesis
    proof (cases "length a' < length a")
      case True
      with w have lt: "length b < length b'" by simp
      have "\<forall>m \<in> set (finditer_from U fl r b' a'). length b < m_start m"
        using finditer_from_props[of _ U fl r b' a'] lt by fastforce
      with "1.IH"(2)[OF Some[unfolded st] refl refl True] Some st True show ?thesis
        by (subst finditer_from.simps) simp
    next
      case False
      show ?thesis
      proof (cases a)
        case Nil
        with Some st False show ?thesis by (subst finditer_from.simps) simp
      next
        case (Cons x xs)
        have "\<forall>m \<in> set (finditer_from U fl r (x # b) xs). length b < m_start m"
          using finditer_from_props[of _ U fl r "x # b" xs] by fastforce
        with "1.IH"(3)[OF Some[unfolded st] refl refl False Cons] Some st False Cons show ?thesis
          by (subst finditer_from.simps) simp
      qed
    qed
  qed
qed

lemma bodies_from:
  "k \<le> length ms \<Longrightarrow>
     map (\<lambda>(i, m). entry_content content ms i m) (enumerate k (drop k ms))
       = cuts content (map m_start (drop k ms))"
proof (induction "length ms - k" arbitrary: k)
  case 0
  then show ?case by simp
next
  case (Suc d)
  then have k: "k < length ms" by simp
  then have dk: "drop k ms = ms ! k # drop (Suc k) ms" by (simp add: Cons_nth_drop_Suc)
  from Suc have IH: "map (\<lambda>(i, m). entry_content content ms i m) (enumerate (Suc k) (drop (Suc k) ms))
       = cuts content (map m_start (drop (Suc k) ms))"
    by simp
  have step: "map (\<lambda>(i, m). entry_content content ms i m) (enumerate k (drop k ms))
      = entry_content content ms k (ms ! k) # cuts content (map m_start (drop (Suc k) ms))"
    by (simp add: dk IH)
  show ?case
  proof (cases "Suc k < length ms")
    case True
    then have dsk: "drop (Suc k) ms = ms ! Suc k # drop (Suc (Suc k)) ms"
      by (simp add: Cons_nth_drop_Suc)
    from True have "entry_content content ms k (ms ! k)
        = slice content (m_start (ms ! k)) (m_start (ms ! Suc k))"
      by (simp add: entry_content_def)
    then show ?thesis unfolding step by (simp add: dk dsk)
  next
    case False
    with k have dsk: "drop (Suc k) ms = []" by simp
    from False have "entry_content content ms k (ms ! k)
        = slice content (m_start (ms ! k)) (length content)"
      by (simp add: entry_content_def)
    then show ?thesis unfolding step by (simp add: dk dsk)
  qed
qed

lemma bodies_cuts: "bodies content ms = cuts content (map m_start ms)"
  using bodies_from[of 0 ms content] by (simp add: bodies_def)

lemma concat_cuts:
  "sorted_wrt (<) starts \<Longrightarrow>
     concat (cuts content starts) = (case starts of [] \<Rightarrow> [] | s # _ \<Rightarrow> drop s content)"
proof (induction content starts rule: cuts.induct)
  case (1 content)
  then show ?case by simp
next
  case (2 content s)
  then show ?case by (simp add: slice_def)
next
  case (3 content s s' rest)
  from "3.prems" have lt: "s < s'" and srt: "sorted_wrt (<) (s' # rest)" by auto
  from "3.IH"[OF srt] have IH: "concat (cuts content (s' # rest)) = drop s' content" by simp
  from lt have "slice content s s' @ drop s' content
      = take (s' - s) (drop s content) @ drop (s' - s) (drop s content)"
    by (simp add: slice_def)
  also have "\<dots> = drop s content" by (rule append_take_drop_id)
  finally show ?case by (simp add: IH)
qed

lemma length_cuts: "length (cuts content starts) = length starts"
  by (induction content starts rule: cuts.induct) simp_all

lemma collect_all_Inr: "collect (map (Inr \<circ> f) xs) = Inr (map f xs)"
  by (induction xs) simp_all

lemma entry_pattern_binds: "binds 1 entry_pattern" "binds 2 entry_pattern"
  by (simp_all add: entry_pattern_def)

lemma re_finditer_groups:
  assumes "m \<in> set (re_finditer U entry_pattern content)"
  shows "\<exists>g1 g2. m_group m 1 = Some g1 \<and> m_group m 2 = Some g2"
  using finditer_from_props[OF assms[unfolded re_finditer_def], of 1]
    finditer_from_props[OF assms[unfolded re_finditer_def], of 2] entry_pattern_binds
  by auto

lemma parse_entry_ok:
  assumes "m \<in> set (re_finditer U entry_pattern content)"
  shows "parse_entry U content ms i m = Inr (entry_of U m (entry_content content ms i m))"
  using re_finditer_groups[OF assms] by (auto simp: parse_entry_def entry_of_def)

lemma parse_bibtex_file_entries:
  "parse_bibtex_file U content =
     Inr (map2 (entry_of U) (re_finditer U entry_pattern content)
               (bodies content (re_finditer U entry_pattern content)))"
proof -
  define ms where "ms = re_finditer U entry_pattern content"
  have "map (\<lambda>(i, m). parse_entry U content ms i m) (enumerate k xs)
      = map Inr (map2 (entry_of U) xs (map (\<lambda>(i, m). entry_content content ms i m) (enumerate k xs)))"
    if "set xs \<subseteq> set ms" for xs k
    using that
  proof (induction xs arbitrary: k)
    case Nil
    then show ?case by simp
  next
    case (Cons x xs)
    then have "x \<in> set (re_finditer U entry_pattern content)" by (simp add: ms_def)
    from parse_entry_ok[OF this] Cons show ?case by simp
  qed
  from this[of ms 0] show ?thesis
    by (simp add: parse_bibtex_file_def Let_def bodies_def collect_all_Inr flip: ms_def)
qed

lemma keys_dict_set: "fst ` set (dict_set d k v) = insert k (fst ` set d)"
  by (induction d k v rule: dict_set.induct) auto

lemma extract_keys:
  "fst ` set (extract_fields U body e)
     \<subseteq> fst ` set e \<union> {n. \<exists>p. (n, p) \<in> set field_patterns \<and> re_search U p body True \<noteq> None}"
proof -
  define f where "f = (\<lambda>entry (field_name, pattern).
              case re_search U pattern body True of
                None \<Rightarrow> entry
              | Some m \<Rightarrow> dict_set entry field_name (clean_field_value U (m_group m 1)))"
  define K where "K fps = {n. \<exists>p. (n, p) \<in> set fps \<and> re_search U p body True \<noteq> None}"
    for fps :: "(string \<times> regex) list"
  have step: "fst ` set (f e fp) \<subseteq> fst ` set e \<union> K [fp]" for e fp
    by (cases fp; cases "re_search U (snd fp) body True") (auto simp: f_def K_def keys_dict_set)
  have K_Cons: "K (fp # fps) = K [fp] \<union> K fps" for fp fps
    by (auto simp: K_def)
  have "fst ` set (foldl f e fps) \<subseteq> fst ` set e \<union> K fps" for e fps
  proof (induction fps arbitrary: e)
    case Nil
    then show ?case by simp
  next
    case (Cons fp fps)
    have "fst ` set (foldl f (f e fp) fps) \<subseteq> fst ` set (f e fp) \<union> K fps" by (rule Cons)
    with step[of e fp] show ?case unfolding K_Cons[of fp fps] foldl_Cons by blast
  qed
  then show ?thesis by (simp add: extract_fields_def f_def K_def)
qed

lemma field_names_distinct: "distinct (map fst field_patterns)"
  by (simp add: field_patterns_def)

lemma field_names_fresh: "''type'' \<notin> fst ` set field_patterns" "''key'' \<notin> fst ` set field_patterns"
  by (simp_all add: field_patterns_def)

subsection \<open>The first match of a pattern\<close>

lemma leads_iff: "leads U fl r st st' \<longleftrightarrow> (\<exists>rest. run U fl r st = st' # rest)"
  by (auto simp: leads_def split: list.splits)

lemma leads_Lit: "leads U fl (Lit c) (caps, b, c # a) (caps, c # b, a)"
  by (simp add: leads_iff)

lemma leads_Seq:
  "leads U fl r1 st s1 \<Longrightarrow> leads U fl r2 s1 s2 \<Longrightarrow> leads U fl (Seq r1 r2) st s2"
  by (auto simp: leads_iff)

lemma leads_lits: "leads U fl (lits w) (caps, b, w @ a) (caps, rev w @ b, a)"
proof (induction w arbitrary: b rule: lits.induct)
  case 1
  then show ?case by (simp add: leads_iff)
next
  case (2 c)
  then show ?case by (simp add: leads_iff)
next
  case (3 c d ds)
  have "leads U fl (Lit c) (caps, b, c # (d # ds) @ a) (caps, c # b, (d # ds) @ a)"
    by (rule leads_Lit)
  from leads_Seq[OF this 3[of "c # b"]] show ?case by simp
qed

lemma leads_Star_step:
  assumes "leads U fl r st s1" and "length (snd (snd s1)) < length (snd (snd st))"
    and "leads U fl (Star r) s1 s2"
  shows "leads U fl (Star r) st s2"
proof -
  from assms(1) obtain rest1 where 1: "run U fl r st = s1 # rest1" by (auto simp: leads_iff)
  from assms(3) obtain rest2 where 2: "run U fl (Star r) s1 = s2 # rest2" by (auto simp: leads_iff)
  show ?thesis unfolding leads_iff by (subst run.simps(9)) (simp add: 1 2 assms(2))
qed

lemma leads_Star_stop: "run U fl r st = [] \<Longrightarrow> leads U fl (Star r) st st"
  by (subst leads_iff, subst run.simps(9)) simp

lemma leads_Star_chars:
  assumes "\<And>st. run U fl r st = step_char P st"
  shows "leads U fl (Star r) (caps, b, a) (caps, rev (takeWhile P a) @ b, dropWhile P a)"
proof (induction a arbitrary: b)
  case Nil
  have "run U fl r (caps, b, []) = []" by (simp add: assms)
  from leads_Star_stop[OF this] show ?case by simp
next
  case (Cons x xs)
  show ?case
  proof (cases "P x")
    case True
    have 1: "leads U fl r (caps, b, x # xs) (caps, x # b, xs)"
      using True by (simp add: leads_iff assms)
    from leads_Star_step[OF 1 _ Cons[of "x # b"]] True show ?thesis by simp
  next
    case False
    have "run U fl r (caps, b, x # xs) = []" using False by (simp add: assms)
    from leads_Star_stop[OF this] False show ?thesis by simp
  qed
qed

lemma leads_Group:
  "leads U fl r (caps, b, a) (caps', b', a') \<Longrightarrow>
     leads U fl (Group n r) (caps, b, a) (caps'(n \<mapsto> rev (take (length b' - length b) b')), b', a')"
  by (auto simp: leads_iff)

lemma takeWhile_dropWhile_prefix:
  "\<forall>x \<in> set t. P x \<Longrightarrow> a = [] \<or> \<not> P (hd a) \<Longrightarrow>
     takeWhile P (t @ a) = t \<and> dropWhile P (t @ a) = a"
  by (induction t) (cases a; simp)+

lemma leads_spaces:
  assumes "\<forall>c \<in> set ws. is_space c" and "\<not> is_space x"
  shows "leads U fl (Star (In [CSpace])) (caps, b, ws @ x # a) (caps, rev ws @ b, x # a)"
proof -
  have P: "in_items U [CSpace] = is_space" by (auto simp: in_items_def)
  have "leads U fl (Star (In [CSpace])) (caps, b, ws @ x # a)
      (caps, rev (takeWhile is_space (ws @ x # a)) @ b, dropWhile is_space (ws @ x # a))"
    by (rule leads_Star_chars) (simp add: P)
  moreover from assms have "takeWhile is_space (ws @ x # a) = ws" "dropWhile is_space (ws @ x # a) = x # a"
    using takeWhile_dropWhile_prefix[of ws is_space "x # a"] by simp_all
  ultimately show ?thesis by simp
qed

lemma leads_no_brace:
  assumes "brace_free t" and "a = [] \<or> hd a = 123 \<or> hd a = 125"
  shows "leads U fl no_brace (caps, b, t @ a) (caps, rev t @ b, a)"
proof -
  let ?P = "\<lambda>x. \<not> in_items U [CChar 123, CChar 125] x"
  have P: "?P x \<longleftrightarrow> x \<noteq> 123 \<and> x \<noteq> 125" for x by (simp add: in_items_def)
  have "leads U fl no_brace (caps, b, t @ a) (caps, rev (takeWhile ?P (t @ a)) @ b, dropWhile ?P (t @ a))"
    unfolding no_brace_def by (rule leads_Star_chars) simp
  moreover from assms have "\<forall>x \<in> set t. ?P x" "a = [] \<or> \<not> ?P (hd a)"
    unfolding P brace_free_def by auto
  then have "takeWhile ?P (t @ a) = t" "dropWhile ?P (t @ a) = a"
    using takeWhile_dropWhile_prefix[of t ?P a] by simp_all
  ultimately show ?thesis by simp
qed

lemma groups_head: "groups gts @ 125 # post \<noteq> [] \<and>
   (hd (groups gts @ 125 # post) = 123 \<or> hd (groups gts @ 125 # post) = 125)"
  by (cases gts) auto

lemma leads_brace_group:
  assumes "brace_free g" "brace_free t" and "a = [] \<or> hd a = 123 \<or> hd a = 125"
  shows "leads U fl brace_group (caps, b, 123 # g @ 125 # t @ a) (caps, rev (123 # g @ 125 # t) @ b, a)"
proof -
  have 1: "leads U fl (Lit 123) (caps, b, 123 # g @ 125 # t @ a) (caps, 123 # b, g @ 125 # t @ a)"
    by (rule leads_Lit)
  have 2: "leads U fl no_brace (caps, 123 # b, g @ 125 # t @ a) (caps, rev g @ 123 # b, 125 # t @ a)"
    by (rule leads_no_brace) (simp_all add: assms)
  have 3: "leads U fl (Lit 125) (caps, rev g @ 123 # b, 125 # t @ a) (caps, 125 # rev g @ 123 # b, t @ a)"
    by (rule leads_Lit)
  have 4: "leads U fl no_brace (caps, 125 # rev g @ 123 # b, t @ a) (caps, rev t @ 125 # rev g @ 123 # b, a)"
    by (rule leads_no_brace) (simp_all add: assms)
  from leads_Seq[OF 1 leads_Seq[OF 2 leads_Seq[OF 3 4]]] show ?thesis
    by (simp add: brace_group_def)
qed

lemma leads_brace_groups:
  assumes "\<forall>(g, t) \<in> set gts. brace_free g \<and> brace_free t"
  shows "leads U fl (Star brace_group) (caps, b, groups gts @ 125 # post)
           (caps, rev (groups gts) @ b, 125 # post)"
  using assms
proof (induction gts arbitrary: b)
  case Nil
  have "run U fl brace_group (caps, b, 125 # post) = []"
    by (rule run_first_ok) (simp add: brace_group_def)
  from leads_Star_stop[OF this] show ?case by simp
next
  case (Cons gt gts)
  obtain g t where gt: "gt = (g, t)" by (cases gt)
  from Cons.prems have bf: "brace_free g" "brace_free t"
    and rest: "\<forall>(g, t) \<in> set gts. brace_free g \<and> brace_free t"
    by (auto simp: gt)
  have 1: "leads U fl brace_group (caps, b, 123 # g @ 125 # t @ groups gts @ 125 # post)
      (caps, rev (123 # g @ 125 # t) @ b, groups gts @ 125 # post)"
    using groups_head[of gts post] by (intro leads_brace_group bf) auto
  have 2: "leads U fl (Star brace_group) (caps, rev (123 # g @ 125 # t) @ b, groups gts @ 125 # post)
      (caps, rev (groups gts) @ rev (123 # g @ 125 # t) @ b, 125 # post)"
    by (rule Cons.IH[OF rest])
  from leads_Star_step[OF 1 _ 2] show ?case by (simp add: gt)
qed

lemma leads_value:
  assumes "brace_free t0" and "\<forall>(g, t) \<in> set gts. brace_free g \<and> brace_free t"
  shows "leads U fl (Seq no_brace (Star brace_group)) (caps, b, t0 @ groups gts @ 125 # post)
           (caps, rev (t0 @ groups gts) @ b, 125 # post)"
proof -
  have 1: "leads U fl no_brace (caps, b, t0 @ groups gts @ 125 # post) (caps, rev t0 @ b, groups gts @ 125 # post)"
    using groups_head[of gts post] by (intro leads_no_brace assms) auto
  from leads_Seq[OF 1 leads_brace_groups[OF assms(2)]] show ?thesis by simp
qed

lemma leads_anchor:
  assumes "\<forall>c \<in> set ws1. is_space c" "\<forall>c \<in> set ws2. is_space c"
    and "leads U fl value (caps, 123 # rev ws2 @ 61 # rev ws1 @ rev (ascii name) @ b, v @ 125 # post)
           (caps, rev v @ 123 # rev ws2 @ 61 # rev ws1 @ rev (ascii name) @ b, 125 # post)"
  shows "leads U fl (anchor name value) (caps, b, ascii name @ ws1 @ 61 # ws2 @ 123 # v @ 125 # post)
           (caps(1 \<mapsto> v), 125 # rev v @ 123 # rev ws2 @ 61 # rev ws1 @ rev (ascii name) @ b, post)"
proof -
  have sp: "\<not> is_space 61" "\<not> is_space 123" by (simp_all add: is_space_def)
  let ?b1 = "rev (ascii name) @ b"
  let ?b2 = "rev ws1 @ ?b1"
  let ?b3 = "61 # ?b2"
  let ?b4 = "rev ws2 @ ?b3"
  let ?b5 = "123 # ?b4"
  have 1: "leads U fl (lits (ascii name)) (caps, b, ascii name @ ws1 @ 61 # ws2 @ 123 # v @ 125 # post)
      (caps, ?b1, ws1 @ 61 # ws2 @ 123 # v @ 125 # post)"
    by (rule leads_lits)
  have 2: "leads U fl (Star (In [CSpace])) (caps, ?b1, ws1 @ 61 # ws2 @ 123 # v @ 125 # post)
      (caps, ?b2, 61 # ws2 @ 123 # v @ 125 # post)"
    by (rule leads_spaces[OF assms(1) sp(1)])
  have 3: "leads U fl (Lit 61) (caps, ?b2, 61 # ws2 @ 123 # v @ 125 # post)
      (caps, ?b3, ws2 @ 123 # v @ 125 # post)"
    by (rule leads_Lit)
  have 4: "leads U fl (Star (In [CSpace])) (caps, ?b3, ws2 @ 123 # v @ 125 # post)
      (caps, ?b4, 123 # v @ 125 # post)"
    by (rule leads_spaces[OF assms(2) sp(2)])
  have 5: "leads U fl (Lit 123) (caps, ?b4, 123 # v @ 125 # post) (caps, ?b5, v @ 125 # post)"
    by (rule leads_Lit)
  have 6: "leads U fl (Group 1 value) (caps, ?b5, v @ 125 # post)
      (caps(1 \<mapsto> v), rev v @ ?b5, 125 # post)"
    using leads_Group[OF assms(3), of 1] by simp
  have 7: "leads U fl (Lit 125) (caps(1 \<mapsto> v), rev v @ ?b5, 125 # post)
      (caps(1 \<mapsto> v), 125 # rev v @ ?b5, post)"
    by (rule leads_Lit)
  from leads_Seq[OF 1 leads_Seq[OF 2 leads_Seq[OF 3 leads_Seq[OF 4 leads_Seq[OF 5 leads_Seq[OF 6 7]]]]]]
  show ?thesis by (simp add: anchor_def)
qed

lemma match_at_leads: "leads U fl r (Map.empty, b, a) st' \<Longrightarrow> match_at U fl r b a = Some st'"
  by (auto simp: leads_iff match_at_def)

lemma match_at_balanced:
  assumes "\<forall>c \<in> set ws1. is_space c" "\<forall>c \<in> set ws2. is_space c"
    and "brace_free t0" and "\<forall>(g, t) \<in> set gts. brace_free g \<and> brace_free t"
  shows "\<exists>b'. match_at U fl (balanced name) b
            (ascii name @ ws1 @ 61 # ws2 @ 123 # (t0 @ groups gts) @ 125 # post)
          = Some ([1 \<mapsto> t0 @ groups gts], b', post)"
proof -
  have v: "leads U fl (Seq no_brace (Star brace_group))
       (Map.empty, 123 # rev ws2 @ 61 # rev ws1 @ rev (ascii name) @ b, (t0 @ groups gts) @ 125 # post)
       (Map.empty, rev (t0 @ groups gts) @ 123 # rev ws2 @ 61 # rev ws1 @ rev (ascii name) @ b, 125 # post)"
    using leads_value[OF assms(3,4), of U fl Map.empty _ post] by simp
  from match_at_leads[OF leads_anchor[OF assms(1,2) v]] show ?thesis
    by (auto simp: balanced_def brace_group_def)
qed

lemma search_from_prefix:
  "\<forall>k < length pre. match_at U fl r (rev (take k pre) @ b) (drop k pre @ a) = None \<Longrightarrow>
     search_from U fl r b (pre @ a) = search_from U fl r (rev pre @ b) a"
proof (induction pre arbitrary: b)
  case Nil
  then show ?case by simp
next
  case (Cons x pre)
  from Cons.prems[rule_format, of 0] have 0: "match_at U fl r b (x # pre @ a) = None" by simp
  have "\<forall>k < length pre. match_at U fl r (rev (take k pre) @ x # b) (drop k pre @ a) = None"
  proof (intro allI impI)
    fix k assume "k < length pre"
    with Cons.prems[rule_format, of "Suc k"] show "match_at U fl r (rev (take k pre) @ x # b) (drop k pre @ a) = None"
      by simp
  qed
  from Cons.IH[OF this] 0 show ?case by simp
qed

lemma search_from_here:
  "match_at U fl r b a = Some (caps, b', a') \<Longrightarrow>
     search_from U fl r b a = Some \<lparr>m_start = length b, m_end = length b', m_group = caps\<rparr>"
  by (cases a) simp_all

lemma map_of_dict_set: "map_of (dict_set d k v) = (map_of d)(k \<mapsto> v)"
  by (induction d k v rule: dict_set.induct) auto

lemma extract_fields_lookup:
  assumes "(name, pat) \<in> set field_patterns" and "re_search U pat body True = Some m"
  shows "map_of (extract_fields U body e) name = Some (clean_field_value U (m_group m 1))"
proof -
  define f where "f = (\<lambda>entry (field_name, pattern).
              case re_search U pattern body True of
                None \<Rightarrow> entry
              | Some m \<Rightarrow> dict_set entry field_name (clean_field_value U (m_group m 1)))"
  have other: "map_of (f e fp) name = map_of e name" if "fst fp \<noteq> name" for e fp
    using that by (cases fp; cases "re_search U (snd fp) body True") (auto simp: f_def map_of_dict_set)
  have keep: "map_of (foldl f e fps) name = map_of e name" if "name \<notin> fst ` set fps" for e fps
    using that by (induction fps arbitrary: e) (auto simp: other)
  have this_one: "map_of (f e (name, pat)) name = Some (clean_field_value U (m_group m 1))" for e
    by (simp add: f_def assms(2) map_of_dict_set)
  have "map_of (foldl f e fps) name = Some (clean_field_value U (m_group m 1))"
    if "distinct (map fst fps)" "(name, pat) \<in> set fps" for e fps
    using that
  proof (induction fps arbitrary: e)
    case Nil
    then show ?case by simp
  next
    case (Cons fp fps)
    show ?case
    proof (cases "fp = (name, pat)")
      case True
      with Cons.prems(1) have "name \<notin> fst ` set fps" by auto
      from keep[OF this, of "f e (name, pat)"] this_one[of e] True show ?thesis by simp
    next
      case False
      with Cons.prems have "(name, pat) \<in> set fps" "distinct (map fst fps)" by auto
      from Cons.IH[OF this(2,1)] show ?thesis by simp
    qed
  qed
  from this[OF field_names_distinct assms(1)] show ?thesis
    by (simp add: extract_fields_def f_def)
qed


lemma run_lits: "run U fl (lits w) (caps, b, w @ a) = [(caps, rev w @ b, a)]"
proof (induction w arbitrary: b rule: lits.induct)
  case (3 c d ds)
  from 3[of "c # b"] show ?case by simp
qed simp_all

subsection \<open>The two dash replacements\<close>

lemma adjacent_Cons_other: "x \<noteq> c \<Longrightarrow> adjacent c (x # xs) = adjacent c xs"
  by (cases xs) auto

lemma replace_loop_hd:
  "x \<noteq> 45 \<Longrightarrow> replace_loop [45, 45] new 0 (x # xs) = x # replace_loop [45, 45] new 0 xs"
  by simp

lemma replace_loop_no_adjacent:
  "\<not> adjacent 45 (replace_loop [45, 45] [0x2013] k v)"
proof (induction "[45, 45] :: pystr" "[0x2013] :: pystr" k v rule: replace_loop.induct)
  case (1 skip)
  then show ?case by simp
next
  case (2 k x xs)
  then show ?case by simp
next
  case (3 x xs)
  show ?case
  proof (cases "take 2 (x # xs) = [45, 45]")
    case True
    with 3 show ?thesis by (simp add: adjacent_Cons_other)
  next
    case False
    with 3 have IH: "\<not> adjacent 45 (replace_loop [45, 45] [0x2013] 0 xs)" by simp
    show ?thesis
    proof (cases "x = 45")
      case x: True
      show ?thesis
      proof (cases xs)
        case Nil
        with False show ?thesis by simp
      next
        case (Cons y ys)
        with False x have y: "y \<noteq> 45" by auto
        with IH Cons False show ?thesis by (simp add: adjacent_Cons_other)
      qed
    next
      case x: False
      with IH False show ?thesis by (simp add: adjacent_Cons_other)
    qed
  qed
qed

subsection \<open>One escape in a value without other backslashes\<close>





























subsection \<open>Fields with an empty value\<close>

lemma extract_fields_no_key:
  assumes "(name, pat) \<in> set field_patterns" and "re_search U pat body True = None"
  shows "map_of (extract_fields U body [(''type'', t), (''key'', k)]) name = None"
proof -
  have uniq: "p = pat" if "(name, p) \<in> set field_patterns" for p
    using that assms(1) field_names_distinct by (meson eq_key_imp_eq_value)
  from assms(1) field_names_fresh have fresh: "name \<noteq> ''type''" "name \<noteq> ''key''"
    by force+
  have "name \<notin> fst ` set (extract_fields U body [(''type'', t), (''key'', k)])"
  proof
    assume "name \<in> fst ` set (extract_fields U body [(''type'', t), (''key'', k)])"
    with extract_keys[of U body "[(''type'', t), (''key'', k)]"] fresh
    obtain p where "(name, p) \<in> set field_patterns" "re_search U p body True \<noteq> None"
      by auto
    with uniq assms(2) show False by auto
  qed
  then show ?thesis by (simp add: map_of_eq_None_iff)
qed

lemma run_lits_then:
  "run U fl (Seq (lits w) r) (caps, b, w @ a) = run U fl r (caps, rev w @ b, a)"
  by (simp add: run_lits)

lemma run_spaces_then:
  assumes "\<forall>c \<in> set ws. is_space c" and "\<not> is_space x"
  shows "run U fl (Seq (Star (In [CSpace])) (Seq (Lit x) r)) (caps, b, ws @ x # rest)
           = run U fl r (caps, x # rev ws @ b, rest)"
  using assms(1)
proof (induction ws arbitrary: b)
  case Nil
  from assms(2) show ?case by (simp add: run_Star_unfold in_items_def)
next
  case (Cons w ws)
  then have w: "is_space w" and ws: "\<forall>c \<in> set ws. is_space c" by auto
  from w assms(2) have ne: "w \<noteq> x" by auto
  have star: "run U fl (Star (In [CSpace])) (caps, b, w # ws @ x # rest)
      = run U fl (Star (In [CSpace])) (caps, w # b, ws @ x # rest) @ [(caps, b, w # ws @ x # rest)]"
    using w by (subst run_Star_unfold) (simp add: in_items_def)
  have "run U fl (Seq (Star (In [CSpace])) (Seq (Lit x) r)) (caps, b, (w # ws) @ x # rest)
      = run U fl (Seq (Star (In [CSpace])) (Seq (Lit x) r)) (caps, w # b, ws @ x # rest)"
    using ne by (simp add: star)
  with Cons.IH[OF ws, of "w # b"] show ?case by simp
qed

lemma scalar_empty_none:
  assumes "\<forall>c \<in> set ws1. is_space c" "\<forall>c \<in> set ws2. is_space c"
  shows "match_at U fl (scalar name) b (ascii name @ ws1 @ 61 # ws2 @ 123 # 125 # post) = None"
proof -
  have sp: "\<not> is_space 61" "\<not> is_space 123" by (simp_all add: is_space_def)
  have "run U fl (scalar name) (Map.empty, b, ascii name @ ws1 @ 61 # ws2 @ 123 # 125 # post)
      = run U fl (Seq (Group 1 (Plus (NotIn [CChar 125]))) (Lit 125))
          (Map.empty, 123 # rev ws2 @ 61 # rev ws1 @ rev (ascii name) @ b, 125 # post)"
    by (simp only: scalar_def anchor_def run_lits_then
        run_spaces_then[OF assms(1) sp(1)] run_spaces_then[OF assms(2) sp(2)])
  also have "\<dots> = []" by (simp add: Plus_def in_items_def)
  finally show ?thesis by (simp add: match_at_def)
qed

lemma search_from_none:
  "\<forall>k \<le> length a. match_at U fl r (rev (take k a) @ b) (drop k a) = None \<Longrightarrow>
     search_from U fl r b a = None"
proof (induction a arbitrary: b)
  case Nil
  then show ?case by simp
next
  case (Cons x xs)
  from Cons.prems[rule_format, of 0] have 0: "match_at U fl r b (x # xs) = None" by simp
  have "\<forall>k \<le> length xs. match_at U fl r (rev (take k xs) @ x # b) (drop k xs) = None"
  proof (intro allI impI)
    fix k assume "k \<le> length xs"
    with Cons.prems[rule_format, of "Suc k"] show "match_at U fl r (rev (take k xs) @ x # b) (drop k xs) = None"
      by simp
  qed
  from Cons.IH[OF this] 0 show ?case by simp
qed

section \<open>The claims\<close>

text \<open>
  C10: for the empty string, and for \<open>None\<close>, \<open>clean_field_value\<close> returns the empty
  string.
\<close>

theorem clean_field_value_falsy:
  "clean_field_value U None = [] \<and> clean_field_value U (Some []) = []"
  by (simp add: clean_field_value_def)

text \<open>
  C1: the value \<^verbatim>\<open>text--more---end\<close> is normalized to \<open>text\<close>, an en-dash, \<open>more\<close>,
  an en-dash, a hyphen and \<open>end\<close>, not to \<open>text\<close>, an en-dash, \<open>more\<close>, an em-dash and
  \<open>end\<close>. The double hyphens are replaced first, and behind that replacement no two
  hyphens are left in a row: on every value the replacement of the triple hyphen by the
  em-dash changes nothing.
\<close>

theorem clean_field_value_dashes:
  "clean_field_value U (Some (ascii ''text--more---end''))
     = ascii ''text'' @ [0x2013] @ ascii ''more'' @ [0x2013] @ ascii ''-end'' \<and>
   clean_field_value U (Some (ascii ''text--more---end''))
     \<noteq> ascii ''text'' @ [0x2013] @ ascii ''more'' @ [0x2014] @ ascii ''end'' \<and>
   replace [45, 45, 45] [0x2014] (replace [45, 45] [0x2013] v) = replace [45, 45] [0x2013] v"
proof -
  have "clean_field_value U (Some (ascii ''text--more---end''))
     = ascii ''text'' @ [0x2013] @ ascii ''more'' @ [0x2013] @ ascii ''-end''"
    by (simp add: clean_field_value_def ascii_def Let_def apply_latex_id apply_simple_id re_sub_id
        replace_def backslash_def Plus_def strip_def in_items_def is_space_def)
  moreover have "replace [45, 45, 45] [0x2014] (replace [45, 45] [0x2013] v)
      = replace [45, 45] [0x2013] v"
    by (simp add: replace_def replace_loop_not_adjacent replace_loop_no_adjacent)
  ultimately show ?thesis by (simp add: ascii_def)
qed




text \<open>
  C8: a backslash directly before a braced letter, with no accent between them, is
  rewritten like the acute escape: \<^verbatim>\<open>\{e}\<close> becomes \<open>e-acute\<close>, and so for each of
  the fourteen letters of the acute patterns, also inside a longer value.
\<close>

theorem clean_field_value_missing_accent:
  "clean_field_value U (Some ([92] @ ascii ''{e}'')) = [0xE9] \<and>
   map (\<lambda>x. clean_field_value U (Some [92, 123, x, 125])) (ascii ''aAeEiIoOuUyYcC'')
     = map (\<lambda>c. [c]) [0xE1, 0xC1, 0xE9, 0xC9, 0xED, 0xCD, 0xF3, 0xD3, 0xFA, 0xDA, 0xFD, 0xDD,
                        0x107, 0x106] \<and>
   clean_field_value U (Some (ascii ''caf'' @ [92] @ ascii ''{e} au lait''))
     = ascii ''caf'' @ [0xE9] @ ascii '' au lait''"
  by (simp add: clean_eval)

text \<open>
  C3, as amended: normalizing an already normalized value again yields the same string
  when that value contains no backslash, no opening brace, no backtick, no two hyphens in
  a row and no two straight single quotes in a row.
\<close>

theorem clean_field_value_idempotent_plain:
  assumes "clean_field_value U val = w"
    and "92 \<notin> set w" "123 \<notin> set w" "96 \<notin> set w" "\<not> adjacent 45 w" "\<not> adjacent 39 w"
  shows "clean_field_value U (Some w) = w"
proof -
  from clean_field_value_shape[of U val] assms(1) obtain x where x: "w = strip (collapse x)"
    by auto
  have "squeezed w" unfolding x by (rule squeezed_strip) (rule squeezed_collapse)
  then have "collapse w = w" by (rule collapse_squeezed)
  moreover have "strip w = w" unfolding x by (rule strip_strip)
  ultimately show ?thesis using clean_field_value_plain[OF assms(2-6), of U] by simp
qed

text \<open>The amended C3 at a value with an escape, braces and runs of white space.\<close>

theorem clean_field_value_idempotent_plain_witness:
  "clean_field_value latin1_db (Some (ascii ''  caf'' @ [92, 39] @ ascii ''e  {au}   lait ''))
      = ascii ''caf'' @ [0xE9] @ ascii '' au lait'' \<and>
   92 \<notin> set (ascii ''caf'' @ [0xE9] @ ascii '' au lait'') \<and>
   123 \<notin> set (ascii ''caf'' @ [0xE9] @ ascii '' au lait'') \<and>
   96 \<notin> set (ascii ''caf'' @ [0xE9] @ ascii '' au lait'') \<and>
   \<not> adjacent 45 (ascii ''caf'' @ [0xE9] @ ascii '' au lait'') \<and>
   \<not> adjacent 39 (ascii ''caf'' @ [0xE9] @ ascii '' au lait'') \<and>
   clean_field_value latin1_db (Some (ascii ''caf'' @ [0xE9] @ ascii '' au lait''))
      = ascii ''caf'' @ [0xE9] @ ascii '' au lait''"
  using clean_field_value_idempotent_plain[of latin1_db "Some (ascii ''  caf'' @ [92, 39] @ ascii ''e  {au}   lait '')"
      "ascii ''caf'' @ [0xE9] @ ascii '' au lait''"]
  by (simp add: clean_eval latin1_db_def)

text \<open>
  C3 as stated fails: the value hyphen, backslash, hyphen is normalized to two hyphens,
  which hold no escape and no brace, and normalizing those yields an en-dash.
\<close>

theorem clean_field_value_not_idempotent:
  "clean_field_value latin1_db (Some (clean_field_value latin1_db (Some [45, 92, 45])))
     \<noteq> clean_field_value latin1_db (Some [45, 92, 45]) \<and>
   clean_field_value latin1_db (Some [45, 92, 45]) = [45, 45] \<and>
   clean_field_value latin1_db (Some [45, 45]) = [0x2013] \<and>
   92 \<notin> set (clean_field_value latin1_db (Some [45, 92, 45])) \<and>
   123 \<notin> set (clean_field_value latin1_db (Some [45, 92, 45])) \<and>
   125 \<notin> set (clean_field_value latin1_db (Some [45, 92, 45]))"
  by (simp add: clean_eval latin1_db_def)

text \<open>
  C7: a text in which \<open>re.finditer\<close> finds no marker is parsed to the empty list of
  entries, and no exception is raised.
\<close>

theorem parse_bibtex_file_no_markers:
  "re_finditer U entry_pattern content = [] \<Longrightarrow> parse_bibtex_file U content = Inr []"
  by (simp add: parse_bibtex_file_def)

text \<open>C7 at a text with an at sign that starts no marker.\<close>

theorem parse_bibtex_file_no_markers_witness:
  "re_finditer latin1_db entry_pattern (ascii ''mail me @ home'') = [] \<and>
   parse_bibtex_file latin1_db (ascii ''mail me @ home'') = Inr []"
proof -
  have h: "re_finditer latin1_db entry_pattern (ascii ''mail me @ home'') = []"
    by (simp add: parse_eval clean_eval)
  from parse_bibtex_file_no_markers[OF h] h show ?thesis by simp
qed

text \<open>
  C5: for every body and every field of the catalog, if the pattern of the field is not
  found in the body, the entry built from the body has no key of that name. The
  extraction is a total function: it raises nothing.
\<close>

theorem extract_fields_absent:
  assumes "(name, pat) \<in> set field_patterns" and "re_search U pat body True = None"
  shows "map_of (extract_fields U body [(''type'', t), (''key'', k)]) name = None"
  using assms by (rule extract_fields_no_key)

text \<open>C5 at a body with a title and no doi.\<close>

theorem extract_fields_absent_witness:
  "(''doi'', scalar ''doi'') \<in> set field_patterns \<and>
   re_search latin1_db (scalar ''doi'') (ascii ''title = {T}'') True = None \<and>
   map_of (extract_fields latin1_db (ascii ''title = {T}'') [(''type'', ascii ''book''), (''key'', ascii ''b'')])
     ''doi'' = None"
proof -
  have 1: "(''doi'', scalar ''doi'') \<in> set field_patterns" by (simp add: field_patterns_def)
  have 2: "re_search latin1_db (scalar ''doi'') (ascii ''title = {T}'') True = None"
    by (simp add: parse_eval clean_eval)
  from extract_fields_absent[OF 1 2, of "ascii ''book''" "ascii ''b''"] 1 2 show ?thesis by (simp only: simp_thms)
qed

text \<open>
  C9, as amended: let a body hold, behind a prefix \<open>pre\<close>, a field name, white space, an
  equals sign, white space and an empty pair of braces. The scalar pattern of the name
  does not match there; so a scalar field is absent from the entry when its pattern
  matches at no other position of the body. The brace-balanced pattern matches there
  with the empty value; so a brace-balanced field is present with the empty string when
  its pattern matches at no earlier position of the body.
\<close>

theorem extract_fields_empty_value:
  assumes "\<forall>c \<in> set ws1. is_space c" "\<forall>c \<in> set ws2. is_space c"
    and "body = pre @ ascii name @ ws1 @ [61] @ ws2 @ [123, 125] @ post"
  shows "match_at U True (scalar name) (rev (take (length pre) body)) (drop (length pre) body) = None \<and>
         ((name, scalar name) \<in> set field_patterns \<longrightarrow>
          (\<forall>k \<le> length body. k \<noteq> length pre \<longrightarrow>
              match_at U True (scalar name) (rev (take k body)) (drop k body) = None) \<longrightarrow>
          map_of (extract_fields U body [(''type'', t), (''key'', key)]) name = None) \<and>
         ((name, balanced name) \<in> set field_patterns \<longrightarrow>
          (\<forall>k < length pre. match_at U True (balanced name) (rev (take k body)) (drop k body) = None) \<longrightarrow>
          map_of (extract_fields U body e) name = Some [])"
proof (intro conjI impI)
  let ?rest = "ascii name @ ws1 @ 61 # ws2 @ 123 # 125 # post"
  have body: "body = pre @ ?rest" by (simp add: assms(3))
  show here: "match_at U True (scalar name) (rev (take (length pre) body)) (drop (length pre) body) = None"
    using scalar_empty_none[OF assms(1,2)] by (simp add: body)
  {
    assume mem: "(name, scalar name) \<in> set field_patterns"
      and other: "\<forall>k \<le> length body. k \<noteq> length pre \<longrightarrow>
              match_at U True (scalar name) (rev (take k body)) (drop k body) = None"
    have "\<forall>k \<le> length body. match_at U True (scalar name) (rev (take k body) @ []) (drop k body) = None"
      using other here by (metis append_Nil2)
    from search_from_none[OF this] have "re_search U (scalar name) body True = None"
      by (simp add: re_search_def)
    from extract_fields_no_key[OF mem this]
    show "map_of (extract_fields U body [(''type'', t), (''key'', key)]) name = None" .
  }
  {
    assume mem: "(name, balanced name) \<in> set field_patterns"
      and first: "\<forall>k < length pre. match_at U True (balanced name) (rev (take k body)) (drop k body) = None"
    have bf: "brace_free []" "\<forall>(g, t) \<in> set []. brace_free g \<and> brace_free t"
      by (simp_all add: brace_free_def)
    from match_at_balanced[OF assms(1,2) bf, of U True name "rev pre" post] obtain b' where
      m: "match_at U True (balanced name) (rev pre) ?rest = Some ([1 \<mapsto> []], b', post)"
      by auto
    have "\<forall>k < length pre. match_at U True (balanced name) (rev (take k pre) @ []) (drop k pre @ ?rest) = None"
      using first by (simp add: body)
    from search_from_prefix[OF this] search_from_here[OF m]
    have s: "re_search U (balanced name) body True
        = Some \<lparr>m_start = length pre, m_end = length b', m_group = [1 \<mapsto> []]\<rparr>"
      by (simp add: re_search_def body)
    from extract_fields_lookup[OF mem s, of e]
    show "map_of (extract_fields U body e) name = Some []"
      by (simp add: clean_field_value_def)
  }
qed

text \<open>
  The amended C9 at a record with \<^verbatim>\<open>author = {}\<close> and \<^verbatim>\<open>year = {}\<close>: \<open>year\<close> is absent
  and \<open>author\<close> is present with the empty string.
\<close>

theorem extract_fields_empty_value_witness:
  "ascii ''@Article{k1, author = {}, year = {}}''
     = ascii ''@Article{k1, author = {}, '' @ ascii ''year'' @ [32] @ [61] @ [32] @ [123, 125] @ ascii ''}'' \<and>
   ascii ''@Article{k1, author = {}, year = {}}''
     = ascii ''@Article{k1, '' @ ascii ''author'' @ [32] @ [61] @ [32] @ [123, 125] @ ascii '', year = {}}'' \<and>
   map_of (extract_fields latin1_db (ascii ''@Article{k1, author = {}, year = {}}'')
             [(''type'', ascii ''article''), (''key'', ascii ''k1'')]) ''year'' = None \<and>
   map_of (extract_fields latin1_db (ascii ''@Article{k1, author = {}, year = {}}'')
             [(''type'', ascii ''article''), (''key'', ascii ''k1'')]) ''author'' = Some []"
proof -
  let ?body = "ascii ''@Article{k1, author = {}, year = {}}''"
  let ?e = "[(''type'', ascii ''article''), (''key'', ascii ''k1'')]"
  have sp: "\<forall>c \<in> set [32]. is_space c" by (simp add: is_space_def)
  have y0: "?body = ascii ''@Article{k1, author = {}, '' @ ascii ''year'' @ [32] @ [61] @ [32] @ [123, 125] @ ascii ''}''"
    by (simp add: ascii_def)
  have a0: "?body = ascii ''@Article{k1, '' @ ascii ''author'' @ [32] @ [61] @ [32] @ [123, 125] @ ascii '', year = {}}''"
    by (simp add: ascii_def)
  have y1: "(''year'', scalar ''year'') \<in> set field_patterns" by (simp add: field_patterns_def)
  have a1: "(''author'', balanced ''author'') \<in> set field_patterns" by (simp add: field_patterns_def)
  have fy: "first_ok latin1_db True (scalar ''year'') x = (x = 121)" for x
    by (simp add: scalar_def anchor_def ascii_def)
  have ny: "nonempty (scalar ''year'')" by (simp add: scalar_def anchor_def ascii_def)
  have fa: "first_ok latin1_db True (balanced ''author'') x = (x = 97)" for x
    by (simp add: balanced_def anchor_def ascii_def)
  have "\<forall>k < Suc (length ?body). k \<noteq> length (ascii ''@Article{k1, author = {}, '') \<longrightarrow>
      match_at latin1_db True (scalar ''year'') (rev (take k ?body)) (drop k ?body) = None"
    by (simp add: ascii_def All_less_Suc match_at_first_ok match_at_end fy ny)
  then have y2: "\<forall>k \<le> length ?body. k \<noteq> length (ascii ''@Article{k1, author = {}, '') \<longrightarrow>
      match_at latin1_db True (scalar ''year'') (rev (take k ?body)) (drop k ?body) = None"
    by (simp only: less_Suc_eq_le)
  have a2: "\<forall>k < length (ascii ''@Article{k1, ''). 
      match_at latin1_db True (balanced ''author'') (rev (take k ?body)) (drop k ?body) = None"
    by (simp add: ascii_def All_less_Suc match_at_first_ok fa)
  from extract_fields_empty_value[OF sp sp y0, of latin1_db "ascii ''article''" "ascii ''k1''" ?e] y1 y2
  have y: "map_of (extract_fields latin1_db ?body ?e) ''year'' = None" by blast
  from extract_fields_empty_value[OF sp sp a0, of latin1_db "ascii ''article''" "ascii ''k1''" ?e] a1 a2
  have a: "map_of (extract_fields latin1_db ?body ?e) ''author'' = Some []" by blast
  from y0 a0 y a show ?thesis by (simp only: simp_thms)
qed

text \<open>
  C9 as stated fails in both halves, since the patterns are not anchored at the start
  of a name: with \<^verbatim>\<open>pages = {}\<close> before \<^verbatim>\<open>numpages = {7}\<close> the scalar field \<open>pages\<close> is
  present, with the value 7; with \<^verbatim>\<open>title = {}\<close> behind \<^verbatim>\<open>booktitle = {P}\<close> the
  brace-balanced field \<open>title\<close> has the value P, not the empty string.
\<close>

theorem parse_bibtex_file_empty_value_elsewhere:
  "parse_bibtex_file latin1_db (ascii ''@a{k, pages = {}, numpages = {7}}'')
     = Inr [[(''type'', ascii ''a''), (''key'', ascii ''k''), (''pages'', ascii ''7''),
             (''numpages'', ascii ''7'')]] \<and>
   parse_bibtex_file latin1_db (ascii ''@a{k, booktitle = {P}, title = {}}'')
     = Inr [[(''type'', ascii ''a''), (''key'', ascii ''k''), (''title'', ascii ''P''),
             (''booktitle'', ascii ''P'')]]"
proof
  have ms: "re_finditer latin1_db entry_pattern (ascii ''@a{k, pages = {}, numpages = {7}}'') =
      [\<lparr>m_start = 0, m_end = 5, m_group = [1 \<mapsto> ascii ''a'', 2 \<mapsto> ascii ''k'']\<rparr>]"
    by (simp add: parse_eval clean_eval)
  show "parse_bibtex_file latin1_db (ascii ''@a{k, pages = {}, numpages = {7}}'')
     = Inr [[(''type'', ascii ''a''), (''key'', ascii ''k''), (''pages'', ascii ''7''),
             (''numpages'', ascii ''7'')]]"
    apply (simp only: parse_bibtex_file_def ms Let_def enumerate_simps list.map prod.case)
    apply (simp only: parse_entry_def match.simps)
    apply (simp add: entry_content_def slice_def lower_def strip_def is_space_def ascii_def)
    apply (simp add: parse_eval clean_eval)
    done
next
  have ms: "re_finditer latin1_db entry_pattern (ascii ''@a{k, booktitle = {P}, title = {}}'') =
      [\<lparr>m_start = 0, m_end = 5, m_group = [1 \<mapsto> ascii ''a'', 2 \<mapsto> ascii ''k'']\<rparr>]"
    by (simp add: parse_eval clean_eval)
  show "parse_bibtex_file latin1_db (ascii ''@a{k, booktitle = {P}, title = {}}'')
     = Inr [[(''type'', ascii ''a''), (''key'', ascii ''k''), (''title'', ascii ''P''),
             (''booktitle'', ascii ''P'')]]"
    apply (simp only: parse_bibtex_file_def ms Let_def enumerate_simps list.map prod.case)
    apply (simp only: parse_entry_def match.simps)
    apply (simp add: entry_content_def slice_def lower_def strip_def is_space_def ascii_def)
    apply (simp add: parse_eval clean_eval)
    done
qed

text \<open>
  C2: where \<open>re.finditer\<close> finds the markers \<open>ms\<close>, the file is parsed without an
  exception to one entry for each marker, in the order of the markers, the entry of
  marker \<open>i\<close> being built from body \<open>i\<close>; body \<open>i\<close> is the text from the start of marker
  \<open>i\<close> up to the start of marker \<open>i + 1\<close>, or up to the end of the text for the last
  marker; the starts increase strictly and lie inside the text, so the bodies do not
  overlap; and the bodies, concatenated, are the text from the start of the first marker
  to its end.
\<close>

theorem parse_bibtex_file_segments:
  assumes "ms = re_finditer U entry_pattern content"
  shows "parse_bibtex_file U content = Inr (map2 (entry_of U) ms (bodies content ms)) \<and>
         length (map2 (entry_of U) ms (bodies content ms)) = length ms \<and>
         length (bodies content ms) = length ms \<and>
         (\<forall>i < length ms. bodies content ms ! i =
             slice content (m_start (ms ! i))
               (if Suc i < length ms then m_start (ms ! Suc i) else length content)) \<and>
         sorted_wrt (<) (map m_start ms) \<and>
         (\<forall>m \<in> set ms. m_start m < length content) \<and>
         concat (bodies content ms) = (case ms of [] \<Rightarrow> [] | m # _ \<Rightarrow> drop (m_start m) content)"
proof (intro conjI)
  show "parse_bibtex_file U content = Inr (map2 (entry_of U) ms (bodies content ms))"
    unfolding assms by (rule parse_bibtex_file_entries)
  show "length (map2 (entry_of U) ms (bodies content ms)) = length ms"
    by (simp add: bodies_def)
  show "length (bodies content ms) = length ms"
    by (simp add: bodies_def)
  show "\<forall>i < length ms. bodies content ms ! i =
      slice content (m_start (ms ! i))
        (if Suc i < length ms then m_start (ms ! Suc i) else length content)"
    by (simp add: bodies_def nth_enumerate_eq entry_content_def)
  show srt: "sorted_wrt (<) (map m_start ms)"
    unfolding assms re_finditer_def by (rule finditer_from_sorted)
  have ne: "nonempty entry_pattern" by (simp add: entry_pattern_def)
  show "\<forall>m \<in> set ms. m_start m < length content"
    using finditer_from_props[of _ U False entry_pattern "[]" content 1] ne
    unfolding assms re_finditer_def by auto
  show "concat (bodies content ms) = (case ms of [] \<Rightarrow> [] | m # _ \<Rightarrow> drop (m_start m) content)"
    using concat_cuts[OF srt, of content] by (cases ms) (simp_all add: bodies_cuts)
qed

text \<open>C2 at a text with two records behind a prefix.\<close>

theorem parse_bibtex_file_segments_witness:
  "map m_start (re_finditer latin1_db entry_pattern (ascii ''x @a{k1, year = {1}} @B{k2, title = {T}}''))
     = [2, 21] \<and>
   bodies (ascii ''x @a{k1, year = {1}} @B{k2, title = {T}}'')
       (re_finditer latin1_db entry_pattern (ascii ''x @a{k1, year = {1}} @B{k2, title = {T}}''))
     = [ascii ''@a{k1, year = {1}} '', ascii ''@B{k2, title = {T}}''] \<and>
   parse_bibtex_file latin1_db (ascii ''x @a{k1, year = {1}} @B{k2, title = {T}}'')
     = Inr [[(''type'', ascii ''a''), (''key'', ascii ''k1''), (''year'', ascii ''1'')],
            [(''type'', ascii ''b''), (''key'', ascii ''k2''), (''title'', ascii ''T'')]]"
proof -
  let ?c = "ascii ''x @a{k1, year = {1}} @B{k2, title = {T}}''"
  let ?m0 = "\<lparr>m_start = 2, m_end = 8, m_group = [1 \<mapsto> ascii ''a'', 2 \<mapsto> ascii ''k1'']\<rparr>"
  let ?m1 = "\<lparr>m_start = 21, m_end = 27, m_group = [1 \<mapsto> ascii ''B'', 2 \<mapsto> ascii ''k2'']\<rparr>"
  have ms: "re_finditer latin1_db entry_pattern ?c = [?m0, ?m1]"
    by (simp add: parse_eval clean_eval)
  note c2 = parse_bibtex_file_segments[OF ms[symmetric]]
  note c2_entries = c2[THEN conjunct1]
  note c2_length = c2[THEN conjunct2, THEN conjunct2, THEN conjunct1]
  note c2_slices = c2[THEN conjunct2, THEN conjunct2, THEN conjunct2, THEN conjunct1, rule_format]
  have b0: "bodies ?c [?m0, ?m1] ! 0 = slice ?c 2 21"
    using c2_slices[of 0] by simp
  have b1: "bodies ?c [?m0, ?m1] ! 1 = slice ?c 21 (length ?c)"
    using c2_slices[of 1] by simp
  from c2_length have "bodies ?c [?m0, ?m1] = [bodies ?c [?m0, ?m1] ! 0, bodies ?c [?m0, ?m1] ! 1]"
    by (auto simp: length_Suc_conv)
  then have bs: "bodies ?c [?m0, ?m1] = [ascii ''@a{k1, year = {1}} '', ascii ''@B{k2, title = {T}}'']"
    unfolding b0 b1 by (simp add: slice_def ascii_def)
  have e0: "entry_of latin1_db ?m0 (ascii ''@a{k1, year = {1}} '')
      = [(''type'', ascii ''a''), (''key'', ascii ''k1''), (''year'', ascii ''1'')]"
    apply (simp only: entry_of_def match.simps)
    apply (simp add: lower_def strip_def is_space_def ascii_def)
    apply (simp add: parse_eval clean_eval)
    done
  have e1: "entry_of latin1_db ?m1 (ascii ''@B{k2, title = {T}}'')
      = [(''type'', ascii ''b''), (''key'', ascii ''k2''), (''title'', ascii ''T'')]"
    apply (simp only: entry_of_def match.simps)
    apply (simp add: lower_def strip_def is_space_def ascii_def)
    apply (simp add: parse_eval clean_eval)
    done
  from c2_entries have "parse_bibtex_file latin1_db ?c
     = Inr [[(''type'', ascii ''a''), (''key'', ascii ''k1''), (''year'', ascii ''1'')],
            [(''type'', ascii ''b''), (''key'', ascii ''k2''), (''title'', ascii ''T'')]]"
    unfolding bs by (simp only: e0 e1 zip_Cons_Cons zip_Nil list.map prod.case)
  with ms bs show ?thesis by (simp only: list.map match.simps simp_thms)
qed

text \<open>
  C4, as amended: let a body hold, behind a prefix \<open>pre\<close>, the name of a brace-balanced field, white
  space, an equals sign, white space and a braced value with one level of braces inside,
  and let the pattern of the field match at no earlier position of the body. Then the
  search finds the field at that position and captures the whole value, up to the outer
  closing brace, and the entry maps the field name to the normalized value.
\<close>

theorem extract_fields_nested_braces:
  assumes "(name, balanced name) \<in> set field_patterns"
    and "\<forall>c \<in> set ws1. is_space c" "\<forall>c \<in> set ws2. is_space c"
    and "brace_free t0" "\<forall>(g, t) \<in> set gts. brace_free g \<and> brace_free t"
    and "body = pre @ ascii name @ ws1 @ [61] @ ws2 @ [123] @ t0 @ groups gts @ [125] @ post"
    and "\<forall>k < length pre. match_at U True (balanced name) (rev (take k body)) (drop k body) = None"
  shows "(\<exists>m. re_search U (balanced name) body True = Some m \<and> m_start m = length pre \<and>
              m_group m 1 = Some (t0 @ groups gts)) \<and>
         map_of (extract_fields U body e) name = Some (clean_field_value U (Some (t0 @ groups gts)))"
proof -
  let ?rest = "ascii name @ ws1 @ 61 # ws2 @ 123 # (t0 @ groups gts) @ 125 # post"
  have body: "body = pre @ ?rest" by (simp add: assms(6))
  from match_at_balanced[OF assms(2-5), of U True name "rev pre" post] obtain b' where
    m: "match_at U True (balanced name) (rev pre) ?rest = Some ([1 \<mapsto> t0 @ groups gts], b', post)"
    by blast
  have "\<forall>k < length pre. match_at U True (balanced name) (rev (take k pre) @ []) (drop k pre @ ?rest) = None"
    using assms(7) by (simp add: body)
  from search_from_prefix[OF this] search_from_here[OF m]
  have s: "re_search U (balanced name) body True
      = Some \<lparr>m_start = length pre, m_end = length b', m_group = [1 \<mapsto> t0 @ groups gts]\<rparr>"
    by (simp add: re_search_def body)
  from extract_fields_lookup[OF assms(1) s, of e] s show ?thesis by simp
qed

text \<open>
  C4 at a body with the title \<^verbatim>\<open>A {Study} of X\<close>: the extracted title is
  \<^verbatim>\<open>A Study of X\<close>.
\<close>

theorem extract_fields_nested_braces_witness:
  "ascii ''@book{b, title = {A {Study} of X}, year = {1999}}''
     = ascii ''@book{b, '' @ ascii ''title'' @ [32] @ [61] @ [32] @ [123] @ ascii ''A '' @
       groups [(ascii ''Study'', ascii '' of X'')] @ [125] @ ascii '', year = {1999}}'' \<and>
   map_option m_start (re_search latin1_db (balanced ''title'')
       (ascii ''@book{b, title = {A {Study} of X}, year = {1999}}'') True) = Some 9 \<and>
   map_of (extract_fields latin1_db (ascii ''@book{b, title = {A {Study} of X}, year = {1999}}'')
             [(''type'', ascii ''book''), (''key'', ascii ''b'')]) ''title''
     = Some (ascii ''A Study of X'')"
proof -
  let ?body = "ascii ''@book{b, title = {A {Study} of X}, year = {1999}}''"
  let ?pre = "ascii ''@book{b, ''"
  have 1: "(''title'', balanced ''title'') \<in> set field_patterns" by (simp add: field_patterns_def)
  have 2: "\<forall>c \<in> set [32]. is_space c" by (simp add: is_space_def)
  have 4: "brace_free (ascii ''A '')" by (simp add: brace_free_def ascii_def)
  have 5: "\<forall>(g, t) \<in> set [(ascii ''Study'', ascii '' of X'')]. brace_free g \<and> brace_free t"
    by (simp add: brace_free_def ascii_def)
  have 6: "?body = ?pre @ ascii ''title'' @ [32] @ [61] @ [32] @ [123] @ ascii ''A '' @
       groups [(ascii ''Study'', ascii '' of X'')] @ [125] @ ascii '', year = {1999}}''"
    by (simp add: ascii_def)
  have f: "first_ok latin1_db True (balanced ''title'') x = (x = 116)" for x
    by (simp add: balanced_def anchor_def ascii_def)
  have 7: "\<forall>k < length ?pre. match_at latin1_db True (balanced ''title'') (rev (take k ?body)) (drop k ?body) = None"
    by (simp add: ascii_def All_less_Suc match_at_first_ok f)
  note c4 = extract_fields_nested_braces[OF 1 2 2 4 5 6 7, of "[(''type'', ascii ''book''), (''key'', ascii ''b'')]"]
  have v: "clean_field_value latin1_db (Some (ascii ''A '' @ groups [(ascii ''Study'', ascii '' of X'')]))
      = ascii ''A Study of X''"
    by (simp add: clean_eval latin1_db_def)
  have len: "length ?pre = 9" by (simp add: ascii_def)
  from c4 obtain m where m: "re_search latin1_db (balanced ''title'') ?body True = Some m"
    "m_start m = length ?pre"
    by blast
  have s: "map_option m_start (re_search latin1_db (balanced ''title'') ?body True) = Some 9"
    unfolding m(1) by (simp add: m(2) len)
  from c4 v have "map_of (extract_fields latin1_db ?body [(''type'', ascii ''book''), (''key'', ascii ''b'')]) ''title''
      = Some (ascii ''A Study of X'')"
    by (simp only: simp_thms)
  with 6 s show ?thesis by (simp only: simp_thms)
qed

text \<open>
  C4 as stated fails: the patterns are not anchored at the start of a name, so in a body
  with \<^verbatim>\<open>booktitle = {P}\<close> before \<^verbatim>\<open>title = {A {Study} of X}\<close> the title pattern is found
  inside \<open>booktitle\<close> and the extracted title is P.
\<close>

theorem parse_bibtex_file_title_in_booktitle:
  "parse_bibtex_file latin1_db (ascii ''@book{b, booktitle = {P}, title = {A {Study} of X}}'')
     = Inr [[(''type'', ascii ''book''), (''key'', ascii ''b''), (''title'', ascii ''P''),
             (''booktitle'', ascii ''P'')]]"
proof -
  have ms: "re_finditer latin1_db entry_pattern (ascii ''@book{b, booktitle = {P}, title = {A {Study} of X}}'') =
      [\<lparr>m_start = 0, m_end = 8, m_group = [1 \<mapsto> ascii ''book'', 2 \<mapsto> ascii ''b'']\<rparr>]"
    by (simp add: parse_eval clean_eval)
  show ?thesis
    apply (simp only: parse_bibtex_file_def ms Let_def enumerate_simps list.map prod.case)
    apply (simp only: parse_entry_def match.simps)
    apply (simp add: entry_content_def slice_def lower_def strip_def is_space_def ascii_def)
    apply (simp add: parse_eval clean_eval)
    done
qed

end
